theory Spec2Isabelle
  imports Main
begin

section \<open>JavaScript strings\<close>

text \<open>
  A JavaScript string is a sequence of UTF-16 code units. The model takes \<open>string\<close>
  (a list of \<open>char\<close>), so it covers the strings whose code units are all below 256
  (ASCII and Latin-1); on those, \<open>length\<close> is \<open>String.length\<close> and the regular
  expressions of the source, which have no \<open>u\<close> flag, match code unit by code unit.
\<close>

definition CHAR_FORWARD_SLASH :: char where
  "CHAR_FORWARD_SLASH = CHR 0x2F"

definition CHAR_BACKWARD_SLASH :: char where
  "CHAR_BACKWARD_SLASH = CHR 0x5C"

definition CHAR_DOT :: char where
  "CHAR_DOT = CHR 0x2E"

text \<open>\<open>s.includes(sub)\<close>: \<open>sub\<close> occurs in \<open>s\<close> as a contiguous substring.\<close>

fun str_includes :: "string \<Rightarrow> string \<Rightarrow> bool" where
  "str_includes [] sub = (sub = [])"
| "str_includes (c # cs) sub = (take (length sub) (c # cs) = sub \<or> str_includes cs sub)"

text \<open>
  \<open>s.toLowerCase()\<close> on code units below 256: the upper-case letters are A to Z and
  U+00C0 to U+00DE without the multiplication sign U+00D7; each maps to the code unit
  32 above it.
\<close>

definition lower_char :: "char \<Rightarrow> char" where
  "lower_char c =
     (let n = (of_char c :: nat)
      in if (65 \<le> n \<and> n \<le> 90) \<or> (192 \<le> n \<and> n \<le> 222 \<and> n \<noteq> 215)
         then char_of (n + 32) else c)"

definition js_toLowerCase :: "string \<Rightarrow> string" where
  "js_toLowerCase s = map lower_char s"

text \<open>\<open>s.slice(a, b)\<close> for \<open>0 \<le> a\<close>, the only way the program calls it.\<close>

definition slice :: "string \<Rightarrow> int \<Rightarrow> int \<Rightarrow> string" where
  "slice s a b = take (nat (b - a)) (drop (nat a) s)"

text \<open>\<open>s.lastIndexOf(c)\<close> for a one-character search string: \<open>-1\<close> when absent.\<close>

fun lastIndexOf :: "string \<Rightarrow> char \<Rightarrow> int" where
  "lastIndexOf [] c = -1"
| "lastIndexOf (x # xs) c =
     (let r = lastIndexOf xs c
      in if r \<noteq> -1 then r + 1 else if x = c then 0 else -1)"

text \<open>Template literals print a number in decimal.\<close>

fun string_of_nat :: "nat \<Rightarrow> string" where
  "string_of_nat n =
     (if n < 10 then [char_of (48 + n)]
      else string_of_nat (n div 10) @ [char_of (48 + n mod 10)])"

definition string_of_int :: "int \<Rightarrow> string" where
  "string_of_int k = (if k < 0 then CHR ''-'' # string_of_nat (nat (- k)) else string_of_nat (nat k))"

section \<open>JavaScript numbers\<close>

text \<open>
  A JavaScript number is a double. The model takes \<open>NaN\<close>, the two infinities and the
  integers; a fraction is not a value of the model.
\<close>

datatype js_number = NaN | PosInfinity | NegInfinity | Finite int

text \<open>In a condition and under \<open>||\<close> a number is falsy when it is 0 or \<open>NaN\<close>.\<close>

fun js_truthy :: "js_number \<Rightarrow> bool" where
  "js_truthy NaN = False"
| "js_truthy PosInfinity = True"
| "js_truthy NegInfinity = True"
| "js_truthy (Finite k) = (k \<noteq> 0)"

text \<open>\<open>a > b\<close> on numbers: false as soon as one side is \<open>NaN\<close>.\<close>

fun js_greater :: "js_number \<Rightarrow> js_number \<Rightarrow> bool" where
  "js_greater NaN b = False"
| "js_greater a NaN = False"
| "js_greater PosInfinity b = (b \<noteq> PosInfinity)"
| "js_greater NegInfinity b = False"
| "js_greater (Finite x) PosInfinity = False"
| "js_greater (Finite x) NegInfinity = True"
| "js_greater (Finite x) (Finite y) = (x > y)"

text \<open>
  The string a template literal writes for a number. An integer is written in decimal
  when its magnitude is below \<open>10^21\<close>, which holds for both default limits; the exponent
  form JavaScript uses from there on is not reproduced.
\<close>

fun Number_toString :: "js_number \<Rightarrow> string" where
  "Number_toString NaN = ''NaN''"
| "Number_toString PosInfinity = ''Infinity''"
| "Number_toString NegInfinity = ''-Infinity''"
| "Number_toString (Finite k) = string_of_int k"

section \<open>The types of path.types\<close>

datatype OSType = windows | posix | auto

datatype ValidationErrorCode =
  ILLEGAL_CHAR | TOO_LONG | TRAVERSAL | SYNTAX
  | ABSOLUTE_NOT_ALLOWED | RELATIVE_NOT_ALLOWED | EMPTY_PATH

text \<open>An optional field that is absent (\<open>undefined\<close>) is \<open>None\<close>.\<close>

record ValidationError =
  code :: ValidationErrorCode
  message :: string
  position :: "nat option"

record ValidationResult =
  isValid :: bool
  errors :: "ValidationError list option"
  normalizedPath :: "string option"

text \<open>
  Both option objects have the optional field \<open>os\<close>. \<open>maxLength\<close> is a JavaScript
  number.
\<close>

record os_option =
  os :: "OSType option"

record ValidationOptions = os_option +
  allowTraversal :: "bool option"
  maxLength :: "js_number option"
  allowAbsolute :: "bool option"
  allowRelative :: "bool option"

record NormalizationOptions = os_option +
  forceForwardSlash :: "bool option"
  removeTrailingSlash :: "bool option"
  toLowerCase :: "bool option"

text \<open>The empty options object \<open>{}\<close>, the default of both \<open>options\<close> parameters.\<close>

definition no_validation_options :: ValidationOptions where
  "no_validation_options =
     \<lparr>os = None, allowTraversal = None, maxLength = None,
      allowAbsolute = None, allowRelative = None\<rparr>"

definition no_normalization_options :: NormalizationOptions where
  "no_normalization_options =
     \<lparr>os = None, forceForwardSlash = None, removeTrailingSlash = None, toLowerCase = None\<rparr>"

section \<open>The host: Node's os and path modules\<close>

text \<open>
  The program reads its environment through \<open>os.platform()\<close> and through Node's
  \<open>path\<close> module, which is \<open>path.win32\<close> on a Windows host and \<open>path.posix\<close> on every
  other host, whatever \<open>os\<close> option the caller passes. Neither module is part of the
  repository, so the program's functions take the host as a parameter.
\<close>

record node_host =
  platform :: string
  path_normalize :: "string \<Rightarrow> string"
  path_isAbsolute :: "string \<Rightarrow> bool"
  path_join :: "string list \<Rightarrow> string"

subsection \<open>path.posix, after Node's lib/path.js\<close>

definition isPosixPathSeparator :: "char \<Rightarrow> bool" where
  "isPosixPathSeparator c = (c = CHAR_FORWARD_SLASH)"

text \<open>
  \<open>normalizeString\<close> resolves \<open>.\<close> and \<open>..\<close> segments in one pass over the characters,
  with the local variables below. \<open>ns_code\<close> starts as the number 0.
\<close>

record ns_state =
  ns_res :: string
  ns_lastSegmentLength :: int
  ns_lastSlash :: int
  ns_dots :: int
  ns_code :: char

definition ns_init :: ns_state where
  "ns_init = \<lparr>ns_res = [], ns_lastSegmentLength = 0, ns_lastSlash = -1, ns_dots = 0,
              ns_code = CHR 0x00\<rparr>"

text \<open>
  The body of the loop at index \<open>i\<close>, after \<open>code\<close> has been set. A \<open>continue\<close> ends
  the body with the state it has reached.
\<close>

definition ns_body ::
  "string \<Rightarrow> bool \<Rightarrow> char \<Rightarrow> (char \<Rightarrow> bool) \<Rightarrow> nat \<Rightarrow> ns_state \<Rightarrow> ns_state" where
  "ns_body path allowAboveRoot separator isPathSeparator i st =
     (if isPathSeparator (ns_code st) then
        (if ns_lastSlash st = int i - 1 \<or> ns_dots st = 1 then
           st\<lparr>ns_lastSlash := int i, ns_dots := 0\<rparr>
         else if ns_dots st = 2 then
           (let lastIsNotDotDot =
                  (length (ns_res st) < 2 \<or> ns_lastSegmentLength st \<noteq> 2
                   \<or> ns_res st ! (length (ns_res st) - 1) \<noteq> CHAR_DOT
                   \<or> ns_res st ! (length (ns_res st) - 2) \<noteq> CHAR_DOT)
            in if lastIsNotDotDot \<and> length (ns_res st) > 2 then
                 (let lastSlashIndex = lastIndexOf (ns_res st) separator
                  in if lastSlashIndex = -1 then
                       st\<lparr>ns_res := [], ns_lastSegmentLength := 0,
                          ns_lastSlash := int i, ns_dots := 0\<rparr>
                     else
                       (let res' = slice (ns_res st) 0 lastSlashIndex
                        in st\<lparr>ns_res := res',
                              ns_lastSegmentLength :=
                                int (length res') - 1 - lastIndexOf res' separator,
                              ns_lastSlash := int i, ns_dots := 0\<rparr>))
               else if lastIsNotDotDot \<and> length (ns_res st) \<noteq> 0 then
                 st\<lparr>ns_res := [], ns_lastSegmentLength := 0,
                    ns_lastSlash := int i, ns_dots := 0\<rparr>
               else if allowAboveRoot then
                 st\<lparr>ns_res := (if length (ns_res st) > 0
                                 then ns_res st @ separator # ''..'' else ''..''),
                    ns_lastSegmentLength := 2,
                    ns_lastSlash := int i, ns_dots := 0\<rparr>
               else
                 st\<lparr>ns_lastSlash := int i, ns_dots := 0\<rparr>)
         else
           st\<lparr>ns_res := (if length (ns_res st) > 0
                           then ns_res st @ separator # slice path (ns_lastSlash st + 1) (int i)
                           else slice path (ns_lastSlash st + 1) (int i)),
              ns_lastSegmentLength := int i - ns_lastSlash st - 1,
              ns_lastSlash := int i, ns_dots := 0\<rparr>)
      else if ns_code st = CHAR_DOT \<and> ns_dots st \<noteq> -1 then
        st\<lparr>ns_dots := ns_dots st + 1\<rparr>
      else
        st\<lparr>ns_dots := -1\<rparr>)"

text \<open>
  The loop \<open>for (i = 0; i <= path.length; ++i)\<close>: inside the string \<open>code\<close> is the
  character at \<open>i\<close>; one step past the end the loop breaks when the last character was
  a separator and otherwise runs the body once more with a separator as \<open>code\<close>.
\<close>

function ns_loop ::
  "string \<Rightarrow> bool \<Rightarrow> char \<Rightarrow> (char \<Rightarrow> bool) \<Rightarrow> nat \<Rightarrow> ns_state \<Rightarrow> string" where
  "ns_loop path allowAboveRoot separator isPathSeparator i st =
     (if i \<le> length path then
        (if i < length path then
           ns_loop path allowAboveRoot separator isPathSeparator (i + 1)
             (ns_body path allowAboveRoot separator isPathSeparator i
                (st\<lparr>ns_code := path ! i\<rparr>))
         else if isPathSeparator (ns_code st) then ns_res st
         else
           ns_loop path allowAboveRoot separator isPathSeparator (i + 1)
             (ns_body path allowAboveRoot separator isPathSeparator i
                (st\<lparr>ns_code := CHAR_FORWARD_SLASH\<rparr>)))
      else ns_res st)"
  by pat_completeness auto
termination
  by (relation "measure (\<lambda>(path, a, s, p, i, st). Suc (length path) - i)") auto

definition normalizeString :: "string \<Rightarrow> bool \<Rightarrow> char \<Rightarrow> (char \<Rightarrow> bool) \<Rightarrow> string" where
  "normalizeString path allowAboveRoot separator isPathSeparator =
     ns_loop path allowAboveRoot separator isPathSeparator 0 ns_init"

definition posix_normalize :: "string \<Rightarrow> string" where
  "posix_normalize path =
     (if length path = 0 then ''.''
      else
        (let isAbsolute = (path ! 0 = CHAR_FORWARD_SLASH);
             trailingSeparator = (path ! (length path - 1) = CHAR_FORWARD_SLASH);
             path' = normalizeString path (\<not> isAbsolute) CHAR_FORWARD_SLASH isPosixPathSeparator
         in if length path' = 0 then
              (if isAbsolute then ''/'' else if trailingSeparator then ''./'' else ''.'')
            else
              (let path'' = (if trailingSeparator then path' @ ''/'' else path')
               in if isAbsolute then ''/'' @ path'' else path'')))"

definition posix_isAbsolute :: "string \<Rightarrow> bool" where
  "posix_isAbsolute path = (length path > 0 \<and> path ! 0 = CHAR_FORWARD_SLASH)"

text \<open>\<open>join\<close> keeps \<open>joined\<close> undefined until the first non-empty argument.\<close>

fun posix_join_loop :: "string list \<Rightarrow> string option \<Rightarrow> string option" where
  "posix_join_loop [] joined = joined"
| "posix_join_loop (arg # args) joined =
     posix_join_loop args
       (if length arg > 0 then
          (case joined of None \<Rightarrow> Some arg | Some j \<Rightarrow> Some (j @ ''/'' @ arg))
        else joined)"

definition posix_join :: "string list \<Rightarrow> string" where
  "posix_join args =
     (if length args = 0 then ''.''
      else (case posix_join_loop args None of
              None \<Rightarrow> ''.''
            | Some joined \<Rightarrow> posix_normalize joined))"

text \<open>A host that is not Windows: \<open>os.platform()\<close> is not \<open>win32\<close> and \<open>path\<close> is \<open>path.posix\<close>.\<close>

definition posix_host :: node_host where
  "posix_host =
     \<lparr>platform = ''linux'', path_normalize = posix_normalize,
      path_isAbsolute = posix_isAbsolute, path_join = posix_join\<rparr>"

section \<open>pathUtils\<close>

definition WINDOWS_MAX_PATH :: int where
  "WINDOWS_MAX_PATH = 260"

definition POSIX_MAX_PATH :: int where
  "POSIX_MAX_PATH = 4096"

text \<open>The character classes of the two regular expressions.\<close>

definition WINDOWS_ILLEGAL_CHARS :: "char \<Rightarrow> bool" where
  "WINDOWS_ILLEGAL_CHARS c =
     (c \<in> set ''<>:|?*'' \<or> c = CHR 0x22 \<or> (of_char c :: nat) \<le> 0x1F)"

definition POSIX_ILLEGAL_CHARS :: "char \<Rightarrow> bool" where
  "POSIX_ILLEGAL_CHARS c = (c = CHR 0x00)"

text \<open>
  Both expressions carry the \<open>g\<close> flag. \<open>s.match(re)\<close> with a global expression returns
  \<open>null\<close> when nothing matches and otherwise the array of all matched substrings; that
  array has no \<open>index\<close> property, so reading \<open>index\<close> from it gives \<open>undefined\<close>.
  \<open>s.replace(re, '')\<close> with a global expression deletes every match.
\<close>

record match_array =
  matches :: "string list"
  index :: "nat option"

definition match_global :: "string \<Rightarrow> (char \<Rightarrow> bool) \<Rightarrow> match_array option" where
  "match_global s cls =
     (if filter cls s = [] then None
      else Some \<lparr>matches = map (\<lambda>c. [c]) (filter cls s), index = None\<rparr>)"

definition replace_global_empty :: "string \<Rightarrow> (char \<Rightarrow> bool) \<Rightarrow> string" where
  "replace_global_empty s cls = filter (\<lambda>c. \<not> cls c) s"

definition getCurrentOS :: "node_host \<Rightarrow> OSType" where
  "getCurrentOS h = (if platform h = ''win32'' then windows else posix)"

definition getMaxPathLength :: "OSType \<Rightarrow> int" where
  "getMaxPathLength os' = (if os' = windows then WINDOWS_MAX_PATH else POSIX_MAX_PATH)"

text \<open>\<open>options.os === 'auto' || !options.os ? getCurrentOS() : options.os\<close>\<close>

definition resolve_os :: "node_host \<Rightarrow> OSType option \<Rightarrow> OSType" where
  "resolve_os h o' =
     (case o' of None \<Rightarrow> getCurrentOS h
      | Some os' \<Rightarrow> if os' = auto then getCurrentOS h else os')"

text \<open>The options object \<open>{ os }\<close>.\<close>

definition os_only :: "OSType \<Rightarrow> NormalizationOptions" where
  "os_only os' =
     \<lparr>os = Some os', forceForwardSlash = None, removeTrailingSlash = None, toLowerCase = None\<rparr>"

definition normalizePath :: "node_host \<Rightarrow> string \<Rightarrow> NormalizationOptions \<Rightarrow> string" where
  "normalizePath h pathStr options =
     (if pathStr = [] then []
      else
        (let os' = resolve_os h (os options);
             forceForwardSlash' = (case forceForwardSlash options of None \<Rightarrow> True | Some b \<Rightarrow> b);
             removeTrailingSlash' = (case removeTrailingSlash options of None \<Rightarrow> True | Some b \<Rightarrow> b);
             toLowerCase' = (case toLowerCase options of None \<Rightarrow> os' = windows | Some b \<Rightarrow> b);
             normalized = path_normalize h pathStr
         in if normalized = ''.'' then pathStr
            else
              (let normalized1 =
                     (if forceForwardSlash'
                      then map (\<lambda>c. if c = CHAR_BACKWARD_SLASH then CHAR_FORWARD_SLASH else c)
                             normalized
                      else normalized);
                   normalized2 =
                     (if removeTrailingSlash' \<and> length normalized1 > 1
                      then (if normalized1 \<noteq> []
                               \<and> (last normalized1 = CHAR_FORWARD_SLASH
                                  \<or> last normalized1 = CHAR_BACKWARD_SLASH)
                            then butlast normalized1 else normalized1)
                      else normalized1);
                   normalized3 =
                     (if toLowerCase' then js_toLowerCase normalized2 else normalized2)
               in normalized3)))"

text \<open>
  \<open>options.maxLength || getMaxPathLength(os)\<close> takes the default when \<open>maxLength\<close> is
  absent or falsy, that is 0 or \<open>NaN\<close>.
\<close>

definition validatePath :: "node_host \<Rightarrow> string \<Rightarrow> ValidationOptions \<Rightarrow> ValidationResult" where
  "validatePath h pathStr options =
     (let os' = resolve_os h (os options);
          maxLength' =
            (case maxLength options of None \<Rightarrow> Finite (getMaxPathLength os')
             | Some m \<Rightarrow> if js_truthy m then m else Finite (getMaxPathLength os'));
          allowTraversal' = (case allowTraversal options of None \<Rightarrow> False | Some b \<Rightarrow> b);
          allowAbsolute' = (case allowAbsolute options of None \<Rightarrow> True | Some b \<Rightarrow> b);
          allowRelative' = (case allowRelative options of None \<Rightarrow> True | Some b \<Rightarrow> b)
      in if pathStr = [] then
           \<lparr>isValid = False,
            errors = Some [\<lparr>code = EMPTY_PATH, message = ''Path cannot be empty'',
                            position = None\<rparr>],
            normalizedPath = None\<rparr>
         else
           (let errors1 =
                  (if js_greater (Finite (int (length pathStr))) maxLength' then
                     [\<lparr>code = TOO_LONG,
                       message = ''Path exceeds maximum length of '' @ Number_toString maxLength'
                                 @ '' characters'',
                       position = None\<rparr>]
                   else []);
                illegalChars = (if os' = windows then WINDOWS_ILLEGAL_CHARS else POSIX_ILLEGAL_CHARS);
                illegalMatch = match_global pathStr illegalChars;
                errors2 =
                  (case illegalMatch of
                     None \<Rightarrow> errors1
                   | Some m \<Rightarrow>
                       errors1 @
                       [\<lparr>code = ILLEGAL_CHAR,
                         message = ''Path contains illegal character: '' @ matches m ! 0,
                         position = index m\<rparr>]);
                errors3 =
                  (if \<not> allowTraversal' \<and> str_includes pathStr ''..'' then
                     errors2 @
                     [\<lparr>code = TRAVERSAL, message = ''Path traversal (..) is not allowed'',
                       position = None\<rparr>]
                   else errors2);
                isAbsolute = path_isAbsolute h pathStr;
                errors4 =
                  (if isAbsolute \<and> \<not> allowAbsolute' then
                     errors3 @
                     [\<lparr>code = ABSOLUTE_NOT_ALLOWED, message = ''Absolute paths are not allowed'',
                       position = None\<rparr>]
                   else errors3);
                errors5 =
                  (if \<not> isAbsolute \<and> \<not> allowRelative' then
                     errors4 @
                     [\<lparr>code = RELATIVE_NOT_ALLOWED, message = ''Relative paths are not allowed'',
                       position = None\<rparr>]
                   else errors4)
            in if length errors5 = 0 then
                 \<lparr>isValid = True, errors = None,
                  normalizedPath =
                    Some (normalizePath h pathStr (os_only os'))\<rparr>
               else
                 \<lparr>isValid = False, errors = Some errors5, normalizedPath = None\<rparr>))"

definition joinPaths :: "node_host \<Rightarrow> string list \<Rightarrow> string" where
  "joinPaths h paths = path_join h paths"

definition isPathTraversal :: "node_host \<Rightarrow> string \<Rightarrow> bool" where
  "isPathTraversal h pathStr =
     (if pathStr = [] then False
      else
        (let normalized = normalizePath h pathStr no_normalization_options
         in str_includes normalized ''..''))"

text \<open>The parameter \<open>os\<close> defaults to \<open>getCurrentOS()\<close> when the caller leaves it out.\<close>

definition sanitizePath :: "node_host \<Rightarrow> string \<Rightarrow> OSType option \<Rightarrow> string" where
  "sanitizePath h pathStr o' =
     (let os' = (case o' of None \<Rightarrow> getCurrentOS h | Some x \<Rightarrow> x)
      in if pathStr = [] then []
         else
           (let illegalChars = (if os' = windows then WINDOWS_ILLEGAL_CHARS else POSIX_ILLEGAL_CHARS);
                sanitized = replace_global_empty pathStr illegalChars
            in normalizePath h sanitized (os_only os')))"

section \<open>Notions used in the statements\<close>

text \<open>The codes of the errors of a result, in the order of the list; none when the field is absent.\<close>

definition error_codes :: "ValidationResult \<Rightarrow> ValidationErrorCode list" where
  "error_codes r = (case errors r of None \<Rightarrow> [] | Some es \<Rightarrow> map code es)"

text \<open>The illegal-character class of a target, as \<open>validatePath\<close> and \<open>sanitizePath\<close> select it.\<close>

definition illegal_class :: "OSType \<Rightarrow> char \<Rightarrow> bool" where
  "illegal_class os' = (if os' = windows then WINDOWS_ILLEGAL_CHARS else POSIX_ILLEGAL_CHARS)"

text \<open>The limit the length check of \<open>validatePath\<close> compares with.\<close>

definition effective_maxLength :: "node_host \<Rightarrow> ValidationOptions \<Rightarrow> js_number" where
  "effective_maxLength h options =
     (case maxLength options of None \<Rightarrow> Finite (getMaxPathLength (resolve_os h (os options)))
      | Some m \<Rightarrow> if js_truthy m then m else Finite (getMaxPathLength (resolve_os h (os options))))"

text \<open>Segments written one after the other with a separator between neighbours.\<close>

fun join_with :: "string \<Rightarrow> string list \<Rightarrow> string" where
  "join_with sep [] = []"
| "join_with sep [x] = x"
| "join_with sep (x # y # ys) = x @ sep @ join_with sep (y # ys)"

section \<open>The segment view of path.normalize\<close>

text \<open>
  The notions below state what the character loop of \<open>normalizeString\<close> computes; the
  lemmas after them prove that it does.
\<close>

text \<open>The segments of a path: the pieces between the occurrences of the separator.\<close>

fun splits :: "char \<Rightarrow> string \<Rightarrow> string list" where
  "splits sep [] = [[]]"
| "splits sep (c # cs) =
     (if c = sep then [] # splits sep cs
      else (c # hd (splits sep cs)) # tl (splits sep cs))"

text \<open>What one segment does to the stack of segments kept so far: an empty segment and
  \<open>.\<close> leave it alone, \<open>..\<close> removes the last segment unless there is none or it is \<open>..\<close>
  itself, in which case \<open>..\<close> is kept when the path may climb above its start.\<close>

definition seg_step :: "bool \<Rightarrow> string list \<Rightarrow> string \<Rightarrow> string list" where
  "seg_step allowAboveRoot stack seg =
     (if seg = [] \<or> seg = ''.'' then stack
      else if seg = ''..'' then
        (if stack \<noteq> [] \<and> last stack \<noteq> ''..'' then butlast stack
         else if allowAboveRoot then stack @ [''..'']
         else stack)
      else stack @ [seg])"

text \<open>The value of \<open>dots\<close> after reading the characters \<open>cur\<close> of a segment.\<close>

definition dots_of :: "string \<Rightarrow> int" where
  "dots_of cur = (if set cur \<subseteq> {CHAR_DOT} then int (length cur) else -1)"

text \<open>The length of the last segment of a stack, 0 for the empty stack.\<close>

definition seglen :: "string list \<Rightarrow> int" where
  "seglen stack = (if stack = [] then 0 else int (length (last stack)))"

text \<open>Every segment of the stack is non-empty and has no separator.\<close>

definition segs_ok :: "string list \<Rightarrow> bool" where
  "segs_ok stack = (\<forall>s \<in> set stack. s \<noteq> [] \<and> CHAR_FORWARD_SLASH \<notin> set s)"

text \<open>The characters of the segment the loop is reading at index \<open>i\<close>.\<close>

definition ns_cur :: "string \<Rightarrow> nat \<Rightarrow> ns_state \<Rightarrow> string" where
  "ns_cur path i st = slice path (ns_lastSlash st + 1) (int i)"

text \<open>The invariant of the loop of \<open>normalizeString\<close> at index \<open>i\<close>, for the stack the
  result \<open>res\<close> is written from.\<close>

definition ns_inv :: "string \<Rightarrow> nat \<Rightarrow> ns_state \<Rightarrow> string list \<Rightarrow> bool" where
  "ns_inv path i st stack =
     (ns_res st = join_with [CHAR_FORWARD_SLASH] stack \<and> segs_ok stack
      \<and> ns_lastSegmentLength st = seglen stack
      \<and> -1 \<le> ns_lastSlash st \<and> ns_lastSlash st < int i
      \<and> CHAR_FORWARD_SLASH \<notin> set (ns_cur path i st)
      \<and> ns_dots st = dots_of (ns_cur path i st))"

text \<open>The segment \<open>..\<close>.\<close>

definition dotdot :: string where
  "dotdot = [CHAR_DOT, CHAR_DOT]"

text \<open>A segment that names a file or directory.\<close>

definition plain_seg :: "string \<Rightarrow> bool" where
  "plain_seg s = (s \<noteq> [] \<and> s \<noteq> [CHAR_DOT] \<and> s \<noteq> dotdot \<and> CHAR_FORWARD_SLASH \<notin> set s)"

text \<open>A stack in normal form: some \<open>..\<close> segments, none when the path may not climb above
  its start, followed by plain segments.\<close>

definition norm_stack :: "bool \<Rightarrow> string list \<Rightarrow> bool" where
  "norm_stack aar S =
     (\<exists>m R. S = replicate m dotdot @ R \<and> (\<forall>s \<in> set R. plain_seg s) \<and> (\<not> aar \<longrightarrow> m = 0))"

text \<open>The string \<open>path.normalize\<close> writes from a stack, for an absolute or a relative path,
  with or without a trailing separator.\<close>

definition nf :: "bool \<Rightarrow> bool \<Rightarrow> string list \<Rightarrow> string" where
  "nf isAbs trail S =
     (if S = [] then
        (if isAbs then [CHAR_FORWARD_SLASH]
         else if trail then [CHAR_DOT, CHAR_FORWARD_SLASH] else [CHAR_DOT])
      else (if isAbs then [CHAR_FORWARD_SLASH] else [])
           @ join_with [CHAR_FORWARD_SLASH] S
           @ (if trail then [CHAR_FORWARD_SLASH] else []))"

text \<open>The strings \<open>path.normalize\<close> returns.\<close>

definition normal_form :: "string \<Rightarrow> bool" where
  "normal_form r = (\<exists>isAbs trail S. r = nf isAbs trail S \<and> norm_stack (\<not> isAbs) S)"

text \<open>The steps of \<open>normalizePath\<close> after \<open>path.normalize\<close>, for the resolved values of the
  three options.\<close>

definition finish_path :: "bool \<Rightarrow> bool \<Rightarrow> bool \<Rightarrow> string \<Rightarrow> string" where
  "finish_path ffs rts lc normalized =
     (let normalized1 =
            (if ffs
             then map (\<lambda>c. if c = CHAR_BACKWARD_SLASH then CHAR_FORWARD_SLASH else c) normalized
             else normalized);
          normalized2 =
            (if rts \<and> length normalized1 > 1
             then (if normalized1 \<noteq> []
                      \<and> (last normalized1 = CHAR_FORWARD_SLASH
                         \<or> last normalized1 = CHAR_BACKWARD_SLASH)
                   then butlast normalized1 else normalized1)
             else normalized1)
      in if lc then js_toLowerCase normalized2 else normalized2)"

declare ns_loop.simps [simp del]

section \<open>Strings\<close>

lemma take_eq_iff_prefix: "(take (length sub) s = sub) = (\<exists>ys. s = sub @ ys)"
  by (metis append_eq_conv_conj append_take_drop_id)

text \<open>\<open>str_includes\<close> is the substring relation.\<close>

lemma str_includes_iff: "str_includes s sub = (\<exists>xs ys. s = xs @ sub @ ys)"
proof (induction s)
  case Nil
  then show ?case by auto
next
  case (Cons c cs)
  have "(\<exists>xs ys. c # cs = xs @ sub @ ys) =
        ((\<exists>ys. c # cs = sub @ ys) \<or> (\<exists>xs ys. cs = xs @ sub @ ys))"
  proof
    assume "\<exists>xs ys. c # cs = xs @ sub @ ys"
    then obtain xs ys where e: "c # cs = xs @ sub @ ys" by blast
    show "(\<exists>ys. c # cs = sub @ ys) \<or> (\<exists>xs ys. cs = xs @ sub @ ys)"
    proof (cases xs)
      case Nil
      with e show ?thesis by auto
    next
      case (Cons x xs')
      with e have "cs = xs' @ sub @ ys" by simp
      then show ?thesis by blast
    qed
  next
    assume "(\<exists>ys. c # cs = sub @ ys) \<or> (\<exists>xs ys. cs = xs @ sub @ ys)"
    then show "\<exists>xs ys. c # cs = xs @ sub @ ys"
    proof
      assume "\<exists>ys. c # cs = sub @ ys"
      then obtain ys where "c # cs = [] @ sub @ ys" by auto
      then show ?thesis by blast
    next
      assume "\<exists>xs ys. cs = xs @ sub @ ys"
      then obtain xs ys where "cs = xs @ sub @ ys" by blast
      then have "c # cs = (c # xs) @ sub @ ys" by simp
      then show ?thesis by blast
    qed
  qed
  with Cons show ?case
    by (simp only: str_includes.simps take_eq_iff_prefix)
qed

section \<open>The error list of validatePath\<close>

text \<open>
  On a non-empty path the five checks run in the order of the source and each adds at
  most one error.
\<close>

lemma error_codes_validatePath:
  assumes "pathStr \<noteq> []"
  shows "error_codes (validatePath h pathStr options) =
     (if js_greater (Finite (int (length pathStr))) (effective_maxLength h options)
      then [TOO_LONG] else []) @
     (if filter (illegal_class (resolve_os h (os options))) pathStr \<noteq> []
      then [ILLEGAL_CHAR] else []) @
     (if allowTraversal options \<noteq> Some True \<and> str_includes pathStr ''..''
      then [TRAVERSAL] else []) @
     (if path_isAbsolute h pathStr \<and> allowAbsolute options = Some False
      then [ABSOLUTE_NOT_ALLOWED] else []) @
     (if \<not> path_isAbsolute h pathStr \<and> allowRelative options = Some False
      then [RELATIVE_NOT_ALLOWED] else [])"
  using assms
  apply (simp only: validatePath_def Let_def effective_maxLength_def[symmetric]
      illegal_class_def[symmetric] if_False)
  apply (cases "js_greater (Finite (int (length pathStr))) (effective_maxLength h options)";
      cases "match_global pathStr (illegal_class (resolve_os h (os options)))";
      cases "allowTraversal options"; cases "allowAbsolute options";
      cases "allowRelative options";
      cases "str_includes pathStr ''..''"; cases "path_isAbsolute h pathStr")
                      apply (simp_all add: error_codes_def match_global_def split: if_splits)
  done

text \<open>A path that passes every check is valid and carries its normal form.\<close>

lemma validatePath_no_errors:
  assumes "pathStr \<noteq> []" and "error_codes (validatePath h pathStr options) = []"
  shows "validatePath h pathStr options =
           \<lparr>isValid = True, errors = None,
            normalizedPath =
              Some (normalizePath h pathStr (os_only (resolve_os h (os options))))\<rparr>"
  using assms
  apply (simp only: validatePath_def Let_def effective_maxLength_def[symmetric]
      illegal_class_def[symmetric] if_False)
  apply (cases "js_greater (Finite (int (length pathStr))) (effective_maxLength h options)";
      cases "match_global pathStr (illegal_class (resolve_os h (os options)))";
      cases "allowTraversal options"; cases "allowAbsolute options";
      cases "allowRelative options";
      cases "str_includes pathStr ''..''"; cases "path_isAbsolute h pathStr")
                      apply (simp_all add: error_codes_def split: if_splits)
  done

section \<open>The normal form is not empty\<close>

lemma posix_normalize_nonempty: "posix_normalize p \<noteq> []"
  by (simp add: posix_normalize_def Let_def)

lemma normalizePath_nonempty:
  assumes "p \<noteq> []" and "path_normalize h p \<noteq> []"
  shows "normalizePath h p options \<noteq> []"
proof -
  have b: "length xs > 1 \<Longrightarrow> butlast xs \<noteq> []" for xs :: string
    by (cases xs) auto
  show ?thesis
    using assms
    by (auto simp: normalizePath_def Let_def js_toLowerCase_def b)
qed

section \<open>path.join on a POSIX host\<close>

lemma join_with_Cons: "join_with sep (x # xs) = x @ concat (map ((@) sep) xs)"
  by (induction xs arbitrary: x) auto

lemma posix_join_loop_Some:
  "posix_join_loop args (Some j) =
     Some (j @ concat (map ((@) ''/'') (filter (\<lambda>s. s \<noteq> []) args)))"
  by (induction args arbitrary: j) auto

lemma posix_join_loop_None:
  "posix_join_loop args None =
     (if filter (\<lambda>s. s \<noteq> []) args = [] then None
      else Some (join_with ''/'' (filter (\<lambda>s. s \<noteq> []) args)))"
proof (induction args)
  case Nil
  then show ?case by simp
next
  case (Cons a args)
  show ?case
  proof (cases "a = []")
    case True
    with Cons show ?thesis by simp
  next
    case False
    then show ?thesis
      by (simp add: posix_join_loop_Some join_with_Cons)
  qed
qed

lemma posix_join_eq:
  "posix_join args =
     (if filter (\<lambda>s. s \<noteq> []) args = [] then ''.''
      else posix_normalize (join_with ''/'' (filter (\<lambda>s. s \<noteq> []) args)))"
  by (cases args) (simp_all add: posix_join_def posix_join_loop_None del: posix_join_loop.simps)

section \<open>Splitting and joining\<close>

lemma splits_nonempty [simp]: "splits sep s \<noteq> []"
  by (induction s) auto

lemma splits_no_sep: "sep \<notin> set s \<Longrightarrow> splits sep s = [s]"
  by (induction s) auto

lemma splits_append_sep: "splits sep (xs @ sep # ys) = splits sep xs @ splits sep ys"
  by (induction xs) (auto simp: hd_append)

lemma splits_chars: "s \<in> set (splits sep p) \<Longrightarrow> set s \<subseteq> set p \<and> sep \<notin> set s"
proof (induction p arbitrary: s)
  case Nil
  then show ?case by simp
next
  case (Cons c cs)
  show ?case
  proof (cases "c = sep")
    case True
    with Cons show ?thesis by auto
  next
    case False
    obtain t ts where e: "splits sep cs = t # ts"
      by (cases "splits sep cs") auto
    from Cons.prems False e have "s = c # t \<or> s \<in> set ts" by auto
    then show ?thesis
    proof
      assume "s = c # t"
      moreover have "set t \<subseteq> set cs \<and> sep \<notin> set t" using Cons.IH e by simp
      ultimately show ?thesis using False by auto
    next
      assume "s \<in> set ts"
      then have "set s \<subseteq> set cs \<and> sep \<notin> set s" using Cons.IH e by simp
      then show ?thesis by auto
    qed
  qed
qed

lemma join_with_snoc:
  "ss \<noteq> [] \<Longrightarrow> join_with sep (ss @ [s]) = join_with sep ss @ sep @ s"
  by (induction sep ss rule: join_with.induct) auto

lemma join_with_empty_iff:
  "(\<forall>s \<in> set ss. s \<noteq> []) \<Longrightarrow> (join_with sep ss = []) = (ss = [])"
  by (induction sep ss rule: join_with.induct) auto

lemma splits_join:
  assumes "ss \<noteq> []" and "\<forall>s \<in> set ss. sep \<notin> set s"
  shows "splits sep (join_with [sep] ss) = ss"
  using assms
proof (induction "[sep]" ss rule: join_with.induct)
  case 1
  then show ?case by simp
next
  case (2 x)
  then show ?case by (simp add: splits_no_sep)
next
  case (3 x y ys)
  then show ?case by (simp add: splits_append_sep splits_no_sep)
qed

lemma lastIndexOf_absent: "c \<notin> set s \<Longrightarrow> lastIndexOf s c = -1"
  by (induction s) (auto simp: Let_def)

lemma lastIndexOf_range: "-1 \<le> lastIndexOf s c \<and> lastIndexOf s c < int (length s)"
  by (induction s) (auto simp: Let_def)

lemma lastIndexOf_last: "c \<notin> set ys \<Longrightarrow> lastIndexOf (xs @ c # ys) c = int (length xs)"
  by (induction xs) (auto simp: Let_def lastIndexOf_absent)

section \<open>Strings written from a stack of segments\<close>

lemma dots_of_Nil [simp]: "dots_of [] = 0"
  by (simp add: dots_of_def)

lemma dots_of_1: "(dots_of cur = 1) = (cur = [CHAR_DOT])"
  by (cases cur) (auto simp: dots_of_def)

lemma dots_of_2: "(dots_of cur = 2) = (cur = [CHAR_DOT, CHAR_DOT])"
proof (cases cur)
  case Nil
  then show ?thesis by (simp add: dots_of_def)
next
  case (Cons a as)
  then show ?thesis by (cases as) (auto simp: dots_of_def)
qed

lemma dots_of_snoc:
  "dots_of (cur @ [c]) = (if c = CHAR_DOT \<and> dots_of cur \<noteq> -1 then dots_of cur + 1 else -1)"
  by (auto simp: dots_of_def)

lemma join_pop:
  assumes "segs_ok (ss @ [s])"
  shows "ss = [] \<Longrightarrow> lastIndexOf (join_with [CHAR_FORWARD_SLASH] (ss @ [s])) CHAR_FORWARD_SLASH = -1"
    and "ss \<noteq> [] \<Longrightarrow> lastIndexOf (join_with [CHAR_FORWARD_SLASH] (ss @ [s])) CHAR_FORWARD_SLASH
           = int (length (join_with [CHAR_FORWARD_SLASH] ss))"
    and "ss \<noteq> [] \<Longrightarrow> length (join_with [CHAR_FORWARD_SLASH] (ss @ [s])) > 2"
proof -
  from assms have s: "s \<noteq> []" "CHAR_FORWARD_SLASH \<notin> set s" and ok: "segs_ok ss"
    by (auto simp: segs_ok_def)
  show "ss = [] \<Longrightarrow> lastIndexOf (join_with [CHAR_FORWARD_SLASH] (ss @ [s])) CHAR_FORWARD_SLASH = -1"
    using s by (simp add: lastIndexOf_absent)
  show "ss \<noteq> [] \<Longrightarrow> lastIndexOf (join_with [CHAR_FORWARD_SLASH] (ss @ [s])) CHAR_FORWARD_SLASH
           = int (length (join_with [CHAR_FORWARD_SLASH] ss))"
    using s by (simp add: join_with_snoc lastIndexOf_last)
  assume ne: "ss \<noteq> []"
  with ok have "join_with [CHAR_FORWARD_SLASH] ss \<noteq> []"
    using join_with_empty_iff [of ss "[CHAR_FORWARD_SLASH]"] by (simp add: segs_ok_def)
  then have "length (join_with [CHAR_FORWARD_SLASH] ss) \<ge> 1"
    by (cases "join_with [CHAR_FORWARD_SLASH] ss") auto
  moreover have "length s \<ge> 1" using s by (cases s) auto
  ultimately show "length (join_with [CHAR_FORWARD_SLASH] (ss @ [s])) > 2"
    using ne by (simp add: join_with_snoc)
qed

lemma seglen_join:
  assumes "segs_ok stack" and "stack \<noteq> []"
  shows "int (length (join_with [CHAR_FORWARD_SLASH] stack)) - 1
           - lastIndexOf (join_with [CHAR_FORWARD_SLASH] stack) CHAR_FORWARD_SLASH
         = seglen stack"
proof -
  obtain ss s where e: "stack = ss @ [s]"
    using assms(2) by (cases stack rule: rev_cases) auto
  show ?thesis
  proof (cases "ss = []")
    case True
    with e assms(1) show ?thesis
      using join_pop(1) [of ss s] by (simp add: seglen_def)
  next
    case False
    with e assms(1) show ?thesis
      using join_pop(2) [of ss s] by (simp add: seglen_def join_with_snoc)
  qed
qed

lemma last_dotdot_test:
  assumes "segs_ok stack"
  shows "(length (join_with [CHAR_FORWARD_SLASH] stack) < 2 \<or> seglen stack \<noteq> 2
          \<or> join_with [CHAR_FORWARD_SLASH] stack ! (length (join_with [CHAR_FORWARD_SLASH] stack) - 1) \<noteq> CHAR_DOT
          \<or> join_with [CHAR_FORWARD_SLASH] stack ! (length (join_with [CHAR_FORWARD_SLASH] stack) - 2) \<noteq> CHAR_DOT)
         = (\<not> (stack \<noteq> [] \<and> last stack = [CHAR_DOT, CHAR_DOT]))"
proof (cases stack rule: rev_cases)
  case Nil
  then show ?thesis by simp
next
  case (snoc ss s)
  have suffix: "\<exists>pre. join_with [CHAR_FORWARD_SLASH] stack = pre @ s"
    using snoc by (cases "ss = []") (auto simp: join_with_snoc)
  then obtain pre where pre: "join_with [CHAR_FORWARD_SLASH] stack = pre @ s" by blast
  show ?thesis
  proof (cases "length s = 2")
    case True
    then obtain a b where ab: "s = [a, b]"
      by (cases s; cases "tl s") auto
    show ?thesis
      using snoc pre ab by (auto simp: seglen_def nth_append)
  next
    case False
    then show ?thesis
      using snoc by (auto simp: seglen_def)
  qed
qed

section \<open>One iteration of the loop on a character that is not a separator\<close>

lemma ns_cur_upd [simp]:
  "ns_cur path i (st\<lparr>ns_code := c\<rparr>) = ns_cur path i st"
  "ns_cur path i (st\<lparr>ns_dots := d\<rparr>) = ns_cur path i st"
  by (simp_all add: ns_cur_def)

lemma ns_inv_code [simp]: "ns_inv path i (st\<lparr>ns_code := c\<rparr>) stack = ns_inv path i st stack"
  by (simp add: ns_inv_def)

lemma ns_cur_Suc:
  assumes "-1 \<le> ns_lastSlash st" and "ns_lastSlash st < int i" and "i < length path"
  shows "ns_cur path (Suc i) st = ns_cur path i st @ [path ! i]"
proof -
  define k where "k = nat (ns_lastSlash st + 1)"
  have k: "k \<le> i" using assms by (simp add: k_def)
  have "nat (int (Suc i) - (ns_lastSlash st + 1)) = Suc (i - k)"
    using assms by (simp add: k_def)
  moreover have "nat (int i - (ns_lastSlash st + 1)) = i - k"
    using assms by (simp add: k_def)
  moreover have "take (Suc (i - k)) (drop k path) = take (i - k) (drop k path) @ [path ! i]"
    using k assms(3) by (simp add: take_Suc_conv_app_nth)
  ultimately show ?thesis
    by (simp add: ns_cur_def slice_def k_def)
qed

lemma ns_cur_length:
  assumes "-1 \<le> ns_lastSlash st" and "ns_lastSlash st < int i" and "i \<le> length path"
  shows "int (length (ns_cur path i st)) = int i - ns_lastSlash st - 1"
  using assms by (simp add: ns_cur_def slice_def)

lemma ns_cur_drop:
  assumes "-1 \<le> ns_lastSlash st" and "ns_lastSlash st < int (length path)"
  shows "ns_cur path (length path) st = drop (nat (ns_lastSlash st + 1)) path"
  using assms by (simp add: ns_cur_def slice_def)

lemma ns_body_nonsep:
  assumes "ns_inv path i st stack" and "i < length path" and "path ! i \<noteq> CHAR_FORWARD_SLASH"
  shows "ns_inv path (Suc i)
           (ns_body path aar CHAR_FORWARD_SLASH isPosixPathSeparator i (st\<lparr>ns_code := path ! i\<rparr>))
           stack"
    and "ns_lastSlash
           (ns_body path aar CHAR_FORWARD_SLASH isPosixPathSeparator i (st\<lparr>ns_code := path ! i\<rparr>))
         = ns_lastSlash st"
    and "ns_code
           (ns_body path aar CHAR_FORWARD_SLASH isPosixPathSeparator i (st\<lparr>ns_code := path ! i\<rparr>))
         = path ! i"
proof -
  have c: "ns_cur path (Suc i) st = ns_cur path i st @ [path ! i]"
    using assms(1,2) by (intro ns_cur_Suc) (simp_all add: ns_inv_def)
  have b: "ns_body path aar CHAR_FORWARD_SLASH isPosixPathSeparator i (st\<lparr>ns_code := path ! i\<rparr>)
           = st\<lparr>ns_code := path ! i,
                ns_dots := (if path ! i = CHAR_DOT \<and> ns_dots st \<noteq> -1 then ns_dots st + 1 else -1)\<rparr>"
    using assms(3) by (simp add: ns_body_def isPosixPathSeparator_def)
  show "ns_inv path (Suc i)
           (ns_body path aar CHAR_FORWARD_SLASH isPosixPathSeparator i (st\<lparr>ns_code := path ! i\<rparr>))
           stack"
    using assms(1,3) unfolding b
    by (simp add: ns_inv_def c dots_of_snoc)
  show "ns_lastSlash
           (ns_body path aar CHAR_FORWARD_SLASH isPosixPathSeparator i (st\<lparr>ns_code := path ! i\<rparr>))
         = ns_lastSlash st"
    unfolding b by simp
  show "ns_code
           (ns_body path aar CHAR_FORWARD_SLASH isPosixPathSeparator i (st\<lparr>ns_code := path ! i\<rparr>))
         = path ! i"
    unfolding b by simp
qed

section \<open>One iteration of the loop on a separator\<close>

lemma seg_step_simps:
  "seg_step aar stack [] = stack"
  "seg_step aar stack [CHAR_DOT] = stack"
  "seg_step aar stack [CHAR_DOT, CHAR_DOT] =
     (if stack \<noteq> [] \<and> last stack \<noteq> [CHAR_DOT, CHAR_DOT] then butlast stack
      else if aar then stack @ [[CHAR_DOT, CHAR_DOT]] else stack)"
  "seg \<noteq> [] \<Longrightarrow> seg \<noteq> [CHAR_DOT] \<Longrightarrow> seg \<noteq> [CHAR_DOT, CHAR_DOT] \<Longrightarrow>
     seg_step aar stack seg = stack @ [seg]"
  by (simp_all add: seg_step_def CHAR_DOT_def)

lemma segs_ok_simps:
  "segs_ok []"
  "segs_ok (ss @ [s]) = (segs_ok ss \<and> s \<noteq> [] \<and> CHAR_FORWARD_SLASH \<notin> set s)"
  by (auto simp: segs_ok_def)

lemma segs_ok_butlast: "segs_ok stack \<Longrightarrow> segs_ok (butlast stack)"
  by (auto simp: segs_ok_def dest: in_set_butlastD)

lemma join_nonempty: "segs_ok stack \<Longrightarrow> (join_with [CHAR_FORWARD_SLASH] stack = []) = (stack = [])"
  using join_with_empty_iff [of stack "[CHAR_FORWARD_SLASH]"] by (simp add: segs_ok_def)

lemma join_snoc_if:
  "join_with [CHAR_FORWARD_SLASH] (stack @ [s]) =
     (if stack = [] then s else join_with [CHAR_FORWARD_SLASH] stack @ CHAR_FORWARD_SLASH # s)"
  by (simp add: join_with_snoc)

lemma slash_not_dot [simp]: "CHAR_FORWARD_SLASH \<noteq> CHAR_DOT" "CHAR_DOT \<noteq> CHAR_FORWARD_SLASH"
  by (simp_all add: CHAR_FORWARD_SLASH_def CHAR_DOT_def)

lemma ns_body_sep:
  fixes aar :: bool
  assumes inv: "ns_inv path i st stack" and le: "i \<le> length path"
  defines "st' \<equiv> ns_body path aar CHAR_FORWARD_SLASH isPosixPathSeparator i
                    (st\<lparr>ns_code := CHAR_FORWARD_SLASH\<rparr>)"
  defines "stack' \<equiv> seg_step aar stack (ns_cur path i st)"
  shows "ns_res st' = join_with [CHAR_FORWARD_SLASH] stack' \<and> segs_ok stack'
         \<and> ns_lastSegmentLength st' = seglen stack' \<and> ns_lastSlash st' = int i
         \<and> ns_dots st' = 0 \<and> ns_code st' = CHAR_FORWARD_SLASH"
proof -
  define cur where "cur = ns_cur path i st"
  from inv have res: "ns_res st = join_with [CHAR_FORWARD_SLASH] stack"
    and ok: "segs_ok stack"
    and lsl: "ns_lastSegmentLength st = seglen stack"
    and ls: "-1 \<le> ns_lastSlash st" "ns_lastSlash st < int i"
    and cur_ok: "CHAR_FORWARD_SLASH \<notin> set cur"
    and dots: "ns_dots st = dots_of cur"
    by (simp_all add: ns_inv_def cur_def)
  have len: "int (length cur) = int i - ns_lastSlash st - 1"
    unfolding cur_def using ls le by (rule ns_cur_length)
  have empty: "(ns_lastSlash st = int i - 1) = (cur = [])"
    using len by (cases cur) auto
  have sl: "slice path (ns_lastSlash st + 1) (int i) = cur"
    by (simp add: cur_def ns_cur_def)
  have sep: "isPosixPathSeparator CHAR_FORWARD_SLASH"
    by (simp add: isPosixPathSeparator_def)
  consider (noop) "cur = [] \<or> cur = [CHAR_DOT]"
    | (up) "cur = [CHAR_DOT, CHAR_DOT]"
    | (seg) "cur \<noteq> []" "cur \<noteq> [CHAR_DOT]" "cur \<noteq> [CHAR_DOT, CHAR_DOT]"
    by blast
  then show ?thesis
  proof cases
    case noop
    then have c: "ns_lastSlash st = int i - 1 \<or> ns_dots st = 1"
      using empty dots by (auto simp: dots_of_1)
    have s: "stack' = stack"
      using noop by (auto simp: stack'_def cur_def [symmetric] seg_step_simps)
    have "st' = st\<lparr>ns_code := CHAR_FORWARD_SLASH, ns_lastSlash := int i, ns_dots := 0\<rparr>"
      using c sep by (auto simp: st'_def ns_body_def)
    then show ?thesis
      using res ok lsl s by simp
  next
    case up
    then have c: "ns_lastSlash st \<noteq> int i - 1" "ns_dots st \<noteq> 1" "ns_dots st = 2"
      using empty dots by (auto simp: dots_of_def)
    have test: "(length (ns_res st) < 2 \<or> ns_lastSegmentLength st \<noteq> 2
                   \<or> ns_res st ! (length (ns_res st) - 1) \<noteq> CHAR_DOT
                   \<or> ns_res st ! (length (ns_res st) - 2) \<noteq> CHAR_DOT)
                = (\<not> (stack \<noteq> [] \<and> last stack = [CHAR_DOT, CHAR_DOT]))"
      unfolding res lsl using ok by (rule last_dotdot_test)
    show ?thesis
    proof (cases "stack \<noteq> [] \<and> last stack \<noteq> [CHAR_DOT, CHAR_DOT]")
      case True
      then obtain ss s where e: "stack = ss @ [s]" and s: "s \<noteq> [CHAR_DOT, CHAR_DOT]"
        by (cases stack rule: rev_cases) auto
      have s': "stack' = ss"
        using up True e by (simp add: stack'_def cur_def [symmetric] seg_step_simps)
      have okss: "segs_ok ss" using ok e by (simp add: segs_ok_simps)
      have t: "length (ns_res st) < 2 \<or> ns_lastSegmentLength st \<noteq> 2
                   \<or> ns_res st ! (length (ns_res st) - 1) \<noteq> CHAR_DOT
                   \<or> ns_res st ! (length (ns_res st) - 2) \<noteq> CHAR_DOT"
        using test True by simp
      have ne: "length (ns_res st) \<noteq> 0"
        using res ok True join_nonempty by simp
      show ?thesis
      proof (cases "ss = []")
        case True
        have li: "lastIndexOf (ns_res st) CHAR_FORWARD_SLASH = -1"
          unfolding res e using ok e True join_pop(1) [of ss s] by simp
        have "st' = st\<lparr>ns_code := CHAR_FORWARD_SLASH, ns_res := [], ns_lastSegmentLength := 0,
                        ns_lastSlash := int i, ns_dots := 0\<rparr>"
          using c sep t ne li by (simp add: st'_def ns_body_def Let_def)
        then show ?thesis
          using s' True by (simp add: segs_ok_simps seglen_def)
      next
        case False
        have li: "lastIndexOf (ns_res st) CHAR_FORWARD_SLASH
                    = int (length (join_with [CHAR_FORWARD_SLASH] ss))"
          unfolding res e using ok e False join_pop(2) [of ss s] by simp
        have gt: "length (ns_res st) > 2"
          unfolding res e using ok e False join_pop(3) [of ss s] by simp
        have tk: "slice (ns_res st) 0 (int (length (join_with [CHAR_FORWARD_SLASH] ss)))
                    = join_with [CHAR_FORWARD_SLASH] ss"
          unfolding res e using False by (simp add: slice_def join_with_snoc)
        have "st' = st\<lparr>ns_code := CHAR_FORWARD_SLASH,
                        ns_res := join_with [CHAR_FORWARD_SLASH] ss,
                        ns_lastSegmentLength :=
                          int (length (join_with [CHAR_FORWARD_SLASH] ss)) - 1
                            - lastIndexOf (join_with [CHAR_FORWARD_SLASH] ss) CHAR_FORWARD_SLASH,
                        ns_lastSlash := int i, ns_dots := 0\<rparr>"
          using c sep t gt li tk by (simp add: st'_def ns_body_def Let_def)
        then show ?thesis
          using s' okss False by (simp add: seglen_join)
      qed
    next
      case False
      show ?thesis
      proof (cases "stack = []")
        case True
        have r0: "ns_res st = []" using res True by simp
        have s': "stack' = (if aar then [[CHAR_DOT, CHAR_DOT]] else [])"
          using up True by (simp add: stack'_def cur_def [symmetric] seg_step_simps)
        have "st' = (if aar
                     then st\<lparr>ns_code := CHAR_FORWARD_SLASH, ns_res := [CHAR_DOT, CHAR_DOT],
                             ns_lastSegmentLength := 2, ns_lastSlash := int i, ns_dots := 0\<rparr>
                     else st\<lparr>ns_code := CHAR_FORWARD_SLASH, ns_lastSlash := int i, ns_dots := 0\<rparr>)"
          using c sep r0 by (simp add: st'_def ns_body_def Let_def CHAR_DOT_def)
        then show ?thesis
          using s' r0 lsl True by (simp add: segs_ok_def seglen_def)
      next
        case ne: False
        with False have l: "last stack = [CHAR_DOT, CHAR_DOT]" by simp
        have t: "\<not> (length (ns_res st) < 2 \<or> ns_lastSegmentLength st \<noteq> 2
                   \<or> ns_res st ! (length (ns_res st) - 1) \<noteq> CHAR_DOT
                   \<or> ns_res st ! (length (ns_res st) - 2) \<noteq> CHAR_DOT)"
          using test ne l by simp
        have s': "stack' = (if aar then stack @ [[CHAR_DOT, CHAR_DOT]] else stack)"
          using up ne l by (simp add: stack'_def cur_def [symmetric] seg_step_simps)
        have pos: "length (ns_res st) > 0"
          using res ok ne join_nonempty by simp
        have "st' = (if aar
                     then st\<lparr>ns_code := CHAR_FORWARD_SLASH,
                             ns_res := ns_res st @ CHAR_FORWARD_SLASH # [CHAR_DOT, CHAR_DOT],
                             ns_lastSegmentLength := 2, ns_lastSlash := int i, ns_dots := 0\<rparr>
                     else st\<lparr>ns_code := CHAR_FORWARD_SLASH, ns_lastSlash := int i, ns_dots := 0\<rparr>)"
          using c sep t pos by (simp add: st'_def ns_body_def Let_def CHAR_DOT_def)
        then show ?thesis
          using s' res ok lsl ne
          by (simp add: segs_ok_simps seglen_def join_snoc_if)
      qed
    qed
  next
    case seg
    then have c: "ns_lastSlash st \<noteq> int i - 1" "ns_dots st \<noteq> 1" "ns_dots st \<noteq> 2"
      using empty dots by (auto simp: dots_of_1 dots_of_2)
    have s': "stack' = stack @ [cur]"
      using seg by (simp add: stack'_def cur_def [symmetric] seg_step_simps)
    have "st' = st\<lparr>ns_code := CHAR_FORWARD_SLASH,
                    ns_res := (if length (ns_res st) > 0
                               then ns_res st @ CHAR_FORWARD_SLASH # cur else cur),
                    ns_lastSegmentLength := int i - ns_lastSlash st - 1,
                    ns_lastSlash := int i, ns_dots := 0\<rparr>"
      using c sep sl by (simp add: st'_def ns_body_def Let_def)
    then show ?thesis
      using s' res ok seg(1) cur_ok len join_nonempty [OF ok]
      by (auto simp: segs_ok_simps seglen_def join_snoc_if)
  qed
qed

section \<open>normalizeString folds the segments of the path\<close>

lemma ns_loop_past_end:
  "length path < i \<Longrightarrow> ns_loop path aar sep isSep i st = ns_res st"
  by (subst ns_loop.simps) simp

lemma ns_loop_correct:
  assumes "ns_inv path i st stack" and "i \<le> length path"
    and "ns_code st = CHAR_FORWARD_SLASH \<longrightarrow> ns_lastSlash st = int i - 1"
  shows "ns_loop path aar CHAR_FORWARD_SLASH isPosixPathSeparator i st =
           join_with [CHAR_FORWARD_SLASH]
             (foldl (seg_step aar) stack
                (splits CHAR_FORWARD_SLASH (drop (nat (ns_lastSlash st + 1)) path)))"
  using assms
proof (induction "length path - i" arbitrary: i st stack)
  case 0
  then have i: "i = length path" by simp
  from "0.prems"(1) have ls: "-1 \<le> ns_lastSlash st" "ns_lastSlash st < int i"
    and cur_ok: "CHAR_FORWARD_SLASH \<notin> set (ns_cur path i st)"
    and res: "ns_res st = join_with [CHAR_FORWARD_SLASH] stack"
    by (simp_all add: ns_inv_def)
  have cur: "ns_cur path i st = drop (nat (ns_lastSlash st + 1)) path"
    using ls unfolding i by (rule ns_cur_drop)
  have rhs: "foldl (seg_step aar) stack
                (splits CHAR_FORWARD_SLASH (drop (nat (ns_lastSlash st + 1)) path))
             = seg_step aar stack (ns_cur path i st)"
    using cur_ok cur by (simp add: splits_no_sep)
  show ?case
  proof (cases "isPosixPathSeparator (ns_code st)")
    case True
    then have "ns_lastSlash st = int i - 1"
      using "0.prems"(3) by (simp add: isPosixPathSeparator_def)
    then have "ns_cur path i st = []"
      using ns_cur_length [OF ls, of path] i by simp
    then have "seg_step aar stack (ns_cur path i st) = stack"
      by (simp add: seg_step_simps)
    moreover have "ns_loop path aar CHAR_FORWARD_SLASH isPosixPathSeparator i st = ns_res st"
      using True i by (subst ns_loop.simps) simp
    ultimately show ?thesis using rhs res by simp
  next
    case False
    have "ns_loop path aar CHAR_FORWARD_SLASH isPosixPathSeparator i st =
            ns_res (ns_body path aar CHAR_FORWARD_SLASH isPosixPathSeparator i
                      (st\<lparr>ns_code := CHAR_FORWARD_SLASH\<rparr>))"
      using False i by (subst ns_loop.simps) (simp add: ns_loop_past_end)
    then show ?thesis
      using ns_body_sep [OF "0.prems"(1,2), of aar] rhs by simp
  qed
next
  case (Suc n)
  then have i: "i < length path" by simp
  from Suc.prems(1) have ls: "-1 \<le> ns_lastSlash st" "ns_lastSlash st < int i"
    and cur_ok: "CHAR_FORWARD_SLASH \<notin> set (ns_cur path i st)"
    by (simp_all add: ns_inv_def)
  define st' where "st' = ns_body path aar CHAR_FORWARD_SLASH isPosixPathSeparator i
                            (st\<lparr>ns_code := path ! i\<rparr>)"
  have unfold: "ns_loop path aar CHAR_FORWARD_SLASH isPosixPathSeparator i st =
                ns_loop path aar CHAR_FORWARD_SLASH isPosixPathSeparator (Suc i) st'"
    using i by (subst ns_loop.simps) (simp add: st'_def)
  have n: "n = length path - Suc i" using Suc.hyps(2) by simp
  show ?case
  proof (cases "path ! i = CHAR_FORWARD_SLASH")
    case False
    have inv': "ns_inv path (Suc i) st' stack"
      and ls': "ns_lastSlash st' = ns_lastSlash st"
      and code': "ns_code st' = path ! i"
      unfolding st'_def using ns_body_nonsep [OF Suc.prems(1) i False] by simp_all
    have "ns_loop path aar CHAR_FORWARD_SLASH isPosixPathSeparator (Suc i) st' =
           join_with [CHAR_FORWARD_SLASH]
             (foldl (seg_step aar) stack
                (splits CHAR_FORWARD_SLASH (drop (nat (ns_lastSlash st' + 1)) path)))"
      using n inv' i code' False by (intro Suc.hyps(1)) simp_all
    then show ?thesis using unfold ls' by simp
  next
    case True
    define stack' where "stack' = seg_step aar stack (ns_cur path i st)"
    have st'': "st' = ns_body path aar CHAR_FORWARD_SLASH isPosixPathSeparator i
                            (st\<lparr>ns_code := CHAR_FORWARD_SLASH\<rparr>)"
      using True by (simp add: st'_def)
    have b: "ns_res st' = join_with [CHAR_FORWARD_SLASH] stack' \<and> segs_ok stack'
         \<and> ns_lastSegmentLength st' = seglen stack' \<and> ns_lastSlash st' = int i
         \<and> ns_dots st' = 0 \<and> ns_code st' = CHAR_FORWARD_SLASH"
      unfolding st'' stack'_def using Suc.prems(1) i by (intro ns_body_sep) simp_all
    have inv': "ns_inv path (Suc i) st' stack'"
      using b by (simp add: ns_inv_def ns_cur_def slice_def)
    have ih: "ns_loop path aar CHAR_FORWARD_SLASH isPosixPathSeparator (Suc i) st' =
           join_with [CHAR_FORWARD_SLASH]
             (foldl (seg_step aar) stack'
                (splits CHAR_FORWARD_SLASH (drop (nat (ns_lastSlash st' + 1)) path)))"
      using n inv' i b by (intro Suc.hyps(1)) simp_all
    define k where "k = nat (ns_lastSlash st + 1)"
    have k: "k \<le> i" using ls by (simp add: k_def)
    have curk: "ns_cur path i st = take (i - k) (drop k path)"
      using ls by (simp add: ns_cur_def slice_def k_def nat_diff_distrib)
    have "drop k path = take (i - k) (drop k path) @ (drop k path) ! (i - k) # drop (Suc (i - k)) (drop k path)"
      using k i by (intro id_take_nth_drop) simp
    then have "drop k path = ns_cur path i st @ CHAR_FORWARD_SLASH # drop (Suc i) path"
      using k i True curk by (simp add: Suc_diff_le)
    then have "splits CHAR_FORWARD_SLASH (drop k path) =
                 ns_cur path i st # splits CHAR_FORWARD_SLASH (drop (Suc i) path)"
      using cur_ok by (simp add: splits_append_sep splits_no_sep)
    then have "foldl (seg_step aar) stack (splits CHAR_FORWARD_SLASH (drop k path)) =
               foldl (seg_step aar) stack' (splits CHAR_FORWARD_SLASH (drop (Suc i) path))"
      by (simp add: stack'_def)
    moreover have "nat (ns_lastSlash st' + 1) = Suc i" using b by simp
    ultimately show ?thesis
      using unfold ih by (simp add: k_def)
  qed
qed

lemma normalizeString_posix:
  "normalizeString path aar CHAR_FORWARD_SLASH isPosixPathSeparator =
     join_with [CHAR_FORWARD_SLASH] (foldl (seg_step aar) [] (splits CHAR_FORWARD_SLASH path))"
proof -
  have "ns_inv path 0 ns_init []"
    by (simp add: ns_inv_def ns_init_def segs_ok_def seglen_def ns_cur_def slice_def)
  moreover have "ns_code ns_init = CHAR_FORWARD_SLASH \<longrightarrow> ns_lastSlash ns_init = int 0 - 1"
    by (simp add: ns_init_def)
  ultimately have "ns_loop path aar CHAR_FORWARD_SLASH isPosixPathSeparator 0 ns_init =
           join_with [CHAR_FORWARD_SLASH]
             (foldl (seg_step aar) []
                (splits CHAR_FORWARD_SLASH (drop (nat (ns_lastSlash ns_init + 1)) path)))"
    by (intro ns_loop_correct) simp_all
  then show ?thesis
    by (simp add: normalizeString_def ns_init_def)
qed

section \<open>Stacks in normal form\<close>

lemma seg_step_cases:
  "seg_step aar T [] = T"
  "seg_step aar T [CHAR_DOT] = T"
  "seg_step aar T dotdot =
     (if T \<noteq> [] \<and> last T \<noteq> dotdot then butlast T
      else if aar then T @ [dotdot] else T)"
  "plain_seg s \<Longrightarrow> seg_step aar T s = T @ [s]"
  by (simp_all add: seg_step_simps dotdot_def plain_seg_def)

lemma norm_stack_Nil [simp]: "norm_stack aar []"
  by (simp add: norm_stack_def)

lemma norm_stack_step:
  assumes "norm_stack aar T" and "CHAR_FORWARD_SLASH \<notin> set seg"
  shows "norm_stack aar (seg_step aar T seg)"
proof -
  from assms(1) obtain m R where T: "T = replicate m dotdot @ R"
    and R: "\<forall>s \<in> set R. plain_seg s" and m: "\<not> aar \<longrightarrow> m = 0"
    by (auto simp: norm_stack_def)
  consider (noop) "seg = [] \<or> seg = [CHAR_DOT]" | (up) "seg = dotdot" | (plain) "plain_seg seg"
    using assms(2) by (auto simp: plain_seg_def)
  then show ?thesis
  proof cases
    case noop
    then show ?thesis using assms(1) by (auto simp: seg_step_cases)
  next
    case plain
    then have "seg_step aar T seg = replicate m dotdot @ (R @ [seg])"
      using T by (simp add: seg_step_cases)
    moreover have "\<forall>s \<in> set (R @ [seg]). plain_seg s" using R plain by simp
    ultimately show ?thesis using m unfolding norm_stack_def by blast
  next
    case up
    show ?thesis
    proof (cases "R = []")
      case True
      then have T': "T = replicate m dotdot" using T by simp
      then have "T = [] \<or> last T = dotdot" by (cases m) auto
      then have e: "seg_step aar T seg = (if aar then replicate (Suc m) dotdot @ [] else T)"
        using up T' by (auto simp: seg_step_cases replicate_append_same)
      show ?thesis
      proof (cases aar)
        case True
        have "seg_step aar T seg = replicate (Suc m) dotdot @ []"
          using e True by simp
        then show ?thesis
          unfolding norm_stack_def
          by (intro exI [of _ "Suc m"] exI [of _ "[]"]) (simp add: True)
      next
        case False
        then show ?thesis using e assms(1) by simp
      qed
    next
      case False
      then have l: "last T = last R" "T \<noteq> []" using T by simp_all
      have "plain_seg (last R)" using R False by simp
      then have "last T \<noteq> dotdot" using l by (simp add: plain_seg_def)
      then have "seg_step aar T seg = replicate m dotdot @ butlast R"
        using up l T False by (simp add: seg_step_cases butlast_append)
      moreover have "\<forall>s \<in> set (butlast R). plain_seg s"
        using R by (auto dest: in_set_butlastD)
      ultimately show ?thesis using m unfolding norm_stack_def by blast
    qed
  qed
qed

lemma norm_stack_foldl:
  assumes "norm_stack aar T" and "\<forall>s \<in> set segs. CHAR_FORWARD_SLASH \<notin> set s"
  shows "norm_stack aar (foldl (seg_step aar) T segs)"
  using assms by (induction segs arbitrary: T) (auto simp: norm_stack_step)

lemma foldl_step_plain:
  "\<forall>s \<in> set R. plain_seg s \<Longrightarrow> foldl (seg_step aar) T R = T @ R"
  by (induction R arbitrary: T) (auto simp: seg_step_cases)

lemma foldl_step_dotdots:
  "foldl (seg_step True) (replicate j dotdot) (replicate m dotdot) = replicate (j + m) dotdot"
proof (induction m arbitrary: j)
  case 0
  then show ?case by simp
next
  case (Suc m)
  have "replicate j dotdot = [] \<or> last (replicate j dotdot) = dotdot"
    by (cases j) auto
  then have "seg_step True (replicate j dotdot) dotdot = replicate (Suc j) dotdot"
    by (auto simp: seg_step_cases replicate_append_same)
  then show ?case using Suc [of "Suc j"] by simp
qed

lemma foldl_step_norm:
  assumes "norm_stack aar S"
  shows "foldl (seg_step aar) [] S = S"
proof -
  from assms obtain m R where S: "S = replicate m dotdot @ R"
    and R: "\<forall>s \<in> set R. plain_seg s" and m: "\<not> aar \<longrightarrow> m = 0"
    by (auto simp: norm_stack_def)
  have "foldl (seg_step aar) [] (replicate m dotdot) = replicate m dotdot"
  proof (cases aar)
    case True
    then show ?thesis using foldl_step_dotdots [of 0 m] by simp
  next
    case False
    then show ?thesis using m by simp
  qed
  then show ?thesis using S R by (simp add: foldl_step_plain)
qed

lemma foldl_step_empty_segs:
  "foldl (seg_step aar) T (S @ [[]]) = foldl (seg_step aar) T S"
  "foldl (seg_step aar) T ([] # S) = foldl (seg_step aar) T S"
  by (simp_all add: seg_step_cases)

lemma norm_stack_segs_ok:
  assumes "norm_stack aar S"
  shows "segs_ok S"
proof -
  from assms obtain m R where S: "S = replicate m dotdot @ R"
    and R: "\<forall>s \<in> set R. plain_seg s"
    unfolding norm_stack_def by blast
  have "s \<noteq> [] \<and> CHAR_FORWARD_SLASH \<notin> set s" if "s \<in> set S" for s
  proof (cases "s \<in> set R")
    case True
    with R show ?thesis by (simp add: plain_seg_def)
  next
    case False
    with that S have "s = dotdot" by auto
    then show ?thesis by (simp add: dotdot_def)
  qed
  then show ?thesis by (simp add: segs_ok_def)
qed

lemma foldl_step_set:
  "set (foldl (seg_step aar) T segs) \<subseteq> set T \<union> set segs \<union> {dotdot}"
proof (induction segs arbitrary: T)
  case Nil
  then show ?case by auto
next
  case (Cons s segs)
  have "set (butlast T) \<subseteq> set T"
    by (auto dest: in_set_butlastD)
  then have "set (seg_step aar T s) \<subseteq> set T \<union> {s} \<union> {dotdot}"
    unfolding seg_step_def dotdot_def CHAR_DOT_def by (simp add: subset_iff)
  with Cons [of "seg_step aar T s"] show ?case by auto
qed

section \<open>Lower case and the illegal classes\<close>

lemma lower_char_code:
  "(of_char (lower_char c) :: nat) =
     (if (65 \<le> (of_char c :: nat) \<and> (of_char c :: nat) \<le> 90)
         \<or> (192 \<le> (of_char c :: nat) \<and> (of_char c :: nat) \<le> 222 \<and> (of_char c :: nat) \<noteq> 215)
      then of_char c + 32 else of_char c)"
  by (auto simp: lower_char_def Let_def)

lemma char_eq_code: "(c = d) = ((of_char c :: nat) = of_char d)"
  by auto

lemma lower_char_slash: "(lower_char c = CHAR_FORWARD_SLASH) = (c = CHAR_FORWARD_SLASH)"
proof -
  have "(lower_char c = CHAR_FORWARD_SLASH) = ((of_char (lower_char c) :: nat) = of_char CHAR_FORWARD_SLASH)"
    by (rule char_eq_code)
  also have "\<dots> = ((of_char c :: nat) = of_char CHAR_FORWARD_SLASH)"
    by (auto simp: lower_char_code CHAR_FORWARD_SLASH_def)
  also have "\<dots> = (c = CHAR_FORWARD_SLASH)"
    by (rule char_eq_code [symmetric])
  finally show ?thesis .
qed

lemma lower_char_dot: "(lower_char c = CHAR_DOT) = (c = CHAR_DOT)"
proof -
  have "(lower_char c = CHAR_DOT) = ((of_char (lower_char c) :: nat) = of_char CHAR_DOT)"
    by (rule char_eq_code)
  also have "\<dots> = ((of_char c :: nat) = of_char CHAR_DOT)"
    by (auto simp: lower_char_code CHAR_DOT_def)
  also have "\<dots> = (c = CHAR_DOT)"
    by (rule char_eq_code [symmetric])
  finally show ?thesis .
qed

lemma lower_char_backslash: "(lower_char c = CHAR_BACKWARD_SLASH) = (c = CHAR_BACKWARD_SLASH)"
proof -
  have "(lower_char c = CHAR_BACKWARD_SLASH) = ((of_char (lower_char c) :: nat) = of_char CHAR_BACKWARD_SLASH)"
    by (rule char_eq_code)
  also have "\<dots> = ((of_char c :: nat) = of_char CHAR_BACKWARD_SLASH)"
    by (auto simp: lower_char_code CHAR_BACKWARD_SLASH_def)
  also have "\<dots> = (c = CHAR_BACKWARD_SLASH)"
    by (rule char_eq_code [symmetric])
  finally show ?thesis .
qed

lemma lower_char_idem: "lower_char (lower_char c) = lower_char c"
  by (auto simp: char_eq_code [of "lower_char (lower_char c)"] lower_char_code)

lemma windows_illegal_code:
  "WINDOWS_ILLEGAL_CHARS c =
     ((of_char c :: nat) \<in> {60, 62, 58, 124, 63, 42, 34} \<or> (of_char c :: nat) \<le> 31)"
  by (auto simp: WINDOWS_ILLEGAL_CHARS_def char_eq_code [of c])

lemma posix_illegal_code: "POSIX_ILLEGAL_CHARS c = ((of_char c :: nat) = 0)"
  by (auto simp: POSIX_ILLEGAL_CHARS_def char_eq_code [of c])

lemma lower_char_windows_illegal: "WINDOWS_ILLEGAL_CHARS (lower_char c) \<Longrightarrow> WINDOWS_ILLEGAL_CHARS c"
  by (auto simp: windows_illegal_code lower_char_code split: if_splits)

lemma lower_char_posix_illegal: "POSIX_ILLEGAL_CHARS (lower_char c) \<Longrightarrow> POSIX_ILLEGAL_CHARS c"
  by (auto simp: posix_illegal_code lower_char_code split: if_splits)

lemma legal_slash_dot:
  "\<not> WINDOWS_ILLEGAL_CHARS CHAR_FORWARD_SLASH" "\<not> WINDOWS_ILLEGAL_CHARS CHAR_DOT"
  "\<not> POSIX_ILLEGAL_CHARS CHAR_FORWARD_SLASH" "\<not> POSIX_ILLEGAL_CHARS CHAR_DOT"
  by (simp_all add: windows_illegal_code posix_illegal_code CHAR_FORWARD_SLASH_def CHAR_DOT_def)

section \<open>path.normalize returns a normal form and leaves normal forms unchanged\<close>

lemma posix_normalize_alt:
  "posix_normalize path =
     (if path = [] then [CHAR_DOT]
      else
        (let isAbsolute = (hd path = CHAR_FORWARD_SLASH);
             trailing = (last path = CHAR_FORWARD_SLASH);
             path' = normalizeString path (\<not> isAbsolute) CHAR_FORWARD_SLASH isPosixPathSeparator
         in if path' = [] then
              (if isAbsolute then [CHAR_FORWARD_SLASH]
               else if trailing then [CHAR_DOT, CHAR_FORWARD_SLASH] else [CHAR_DOT])
            else (if isAbsolute then [CHAR_FORWARD_SLASH] else [])
                 @ path' @ (if trailing then [CHAR_FORWARD_SLASH] else [])))"
  by (simp add: posix_normalize_def Let_def hd_conv_nth last_conv_nth
      CHAR_FORWARD_SLASH_def CHAR_DOT_def)

lemma splits_slash_free: "\<forall>s \<in> set (splits sep p). sep \<notin> set s"
  using splits_chars by blast

lemma posix_normalize_nf:
  assumes "p \<noteq> []"
  defines "S \<equiv> foldl (seg_step (hd p \<noteq> CHAR_FORWARD_SLASH)) [] (splits CHAR_FORWARD_SLASH p)"
  shows "posix_normalize p = nf (hd p = CHAR_FORWARD_SLASH) (last p = CHAR_FORWARD_SLASH) S"
    and "norm_stack (hd p \<noteq> CHAR_FORWARD_SLASH) S"
proof -
  show n: "norm_stack (hd p \<noteq> CHAR_FORWARD_SLASH) S"
    unfolding S_def by (intro norm_stack_foldl norm_stack_Nil splits_slash_free)
  then have "segs_ok S" by (rule norm_stack_segs_ok)
  then have e: "(join_with [CHAR_FORWARD_SLASH] S = []) = (S = [])" by (rule join_nonempty)
  show "posix_normalize p = nf (hd p = CHAR_FORWARD_SLASH) (last p = CHAR_FORWARD_SLASH) S"
    using assms(1) e
    by (simp add: posix_normalize_alt Let_def normalizeString_posix nf_def S_def [symmetric])
qed

lemma normal_form_posix_normalize: "normal_form (posix_normalize p)"
proof (cases "p = []")
  case True
  have "posix_normalize [] = nf False False []"
    by (simp add: posix_normalize_alt nf_def)
  then show ?thesis
    unfolding normal_form_def using True norm_stack_Nil by blast
next
  case False
  then show ?thesis
    unfolding normal_form_def using posix_normalize_nf [of p] by blast
qed

lemma join_ends:
  assumes "segs_ok S" and "S \<noteq> []"
  shows "join_with [CHAR_FORWARD_SLASH] S \<noteq> []"
    and "hd (join_with [CHAR_FORWARD_SLASH] S) \<noteq> CHAR_FORWARD_SLASH"
    and "last (join_with [CHAR_FORWARD_SLASH] S) \<noteq> CHAR_FORWARD_SLASH"
proof -
  show ne: "join_with [CHAR_FORWARD_SLASH] S \<noteq> []"
    using assms join_nonempty by simp
  obtain s ss where c: "S = s # ss" using assms(2) by (cases S) auto
  then have s: "s \<noteq> []" "CHAR_FORWARD_SLASH \<notin> set s" using assms(1) by (auto simp: segs_ok_def)
  have "hd (join_with [CHAR_FORWARD_SLASH] S) = hd s"
    using c s by (simp add: join_with_Cons)
  then show "hd (join_with [CHAR_FORWARD_SLASH] S) \<noteq> CHAR_FORWARD_SLASH"
    using s by (cases s) auto
  obtain ts t where r: "S = ts @ [t]" using assms(2) by (cases S rule: rev_cases) auto
  then have t: "t \<noteq> []" "CHAR_FORWARD_SLASH \<notin> set t" using assms(1) by (auto simp: segs_ok_def)
  have "last (join_with [CHAR_FORWARD_SLASH] S) = last t"
    using r t by (cases "ts = []") (simp_all add: join_with_snoc)
  then show "last (join_with [CHAR_FORWARD_SLASH] S) \<noteq> CHAR_FORWARD_SLASH"
    using t by (cases t rule: rev_cases) auto
qed

lemma nf_nonempty: "segs_ok S \<Longrightarrow> nf isAbs trail S \<noteq> []"
  using join_nonempty by (simp add: nf_def)

lemma nf_hd:
  assumes "segs_ok S"
  shows "(hd (nf isAbs trail S) = CHAR_FORWARD_SLASH) = isAbs"
proof (cases "S = []")
  case True
  then show ?thesis by (simp add: nf_def)
next
  case False
  with assms show ?thesis
    using join_ends(1,2) [of S] by (simp add: nf_def)
qed

lemma nf_last:
  assumes "segs_ok S"
  shows "(last (nf isAbs trail S) = CHAR_FORWARD_SLASH) = (trail \<or> (isAbs \<and> S = []))"
proof (cases "S = []")
  case True
  then show ?thesis by (simp add: nf_def)
next
  case False
  with assms show ?thesis
    using join_ends(1,3) [of S] by (simp add: nf_def)
qed

lemma splits_snoc_sep: "splits sep (xs @ [sep]) = splits sep xs @ [[]]"
  using splits_append_sep [of sep xs "[]"] by simp

lemma nf_splits:
  assumes "segs_ok S" and "S \<noteq> []"
  shows "splits CHAR_FORWARD_SLASH (nf isAbs trail S) =
           (if isAbs then [[]] else []) @ S @ (if trail then [[]] else [])"
proof -
  have f: "\<forall>s \<in> set S. CHAR_FORWARD_SLASH \<notin> set s"
    using assms(1) by (simp add: segs_ok_def)
  have j: "splits CHAR_FORWARD_SLASH (join_with [CHAR_FORWARD_SLASH] S) = S"
    using assms(2) f by (rule splits_join)
  have t: "splits CHAR_FORWARD_SLASH (join_with [CHAR_FORWARD_SLASH] S @ [CHAR_FORWARD_SLASH]) = S @ [[]]"
    using j by (simp add: splits_snoc_sep)
  show ?thesis
    using assms(2) j t join_ends(1) [OF assms] by (simp add: nf_def)
qed

lemma nf_literal_root: "posix_normalize [CHAR_FORWARD_SLASH] = [CHAR_FORWARD_SLASH]"
  by code_simp

lemma nf_literal_dot_slash:
  "posix_normalize [CHAR_DOT, CHAR_FORWARD_SLASH] = [CHAR_DOT, CHAR_FORWARD_SLASH]"
  by code_simp

lemma nf_literal_dot: "posix_normalize [CHAR_DOT] = [CHAR_DOT]"
  by code_simp

lemmas nf_literals = nf_literal_root nf_literal_dot_slash nf_literal_dot

lemma posix_normalize_fixed:
  assumes "normal_form r"
  shows "posix_normalize r = r"
proof -
  from assms obtain isAbs trail S where r: "r = nf isAbs trail S"
    and n: "norm_stack (\<not> isAbs) S"
    unfolding normal_form_def by blast
  have ok: "segs_ok S" using n by (rule norm_stack_segs_ok)
  show ?thesis
  proof (cases "S = []")
    case True
    then show ?thesis unfolding r by (simp add: nf_def nf_literals)
  next
    case False
    have ne: "r \<noteq> []" unfolding r using ok by (rule nf_nonempty)
    have h: "(hd r = CHAR_FORWARD_SLASH) = isAbs" unfolding r using ok by (rule nf_hd)
    have l: "(last r = CHAR_FORWARD_SLASH) = trail"
      unfolding r using nf_last [OF ok] False by simp
    have f: "foldl (seg_step (\<not> isAbs)) [] (splits CHAR_FORWARD_SLASH r) = S"
      unfolding r using nf_splits [OF ok False] foldl_step_norm [OF n]
      by (cases isAbs) (simp_all add: seg_step_cases)
    show ?thesis
      using posix_normalize_nf(1) [OF ne] h l f r by simp
  qed
qed

lemma normal_form_nonempty:
  assumes "normal_form r"
  shows "r \<noteq> []"
proof -
  from assms obtain isAbs trail S where r: "r = nf isAbs trail S"
    and n: "norm_stack (\<not> isAbs) S"
    unfolding normal_form_def by blast
  have "segs_ok S" using n by (rule norm_stack_segs_ok)
  then show ?thesis unfolding r by (rule nf_nonempty)
qed

lemma normal_form_strip:
  assumes "normal_form r" and "length r > 1" and "last r = CHAR_FORWARD_SLASH"
  shows "normal_form (butlast r)" and "last (butlast r) \<noteq> CHAR_FORWARD_SLASH"
proof -
  from assms(1) obtain isAbs trail S where r: "r = nf isAbs trail S"
    and n: "norm_stack (\<not> isAbs) S"
    unfolding normal_form_def by blast
  have ok: "segs_ok S" using n by (rule norm_stack_segs_ok)
  have b: "butlast r = nf isAbs False S \<and> last (butlast r) \<noteq> CHAR_FORWARD_SLASH"
  proof (cases "S = []")
    case True
    have "r = [CHAR_DOT, CHAR_FORWARD_SLASH]"
    proof (cases isAbs)
      case True
      with \<open>S = []\<close> have "r = [CHAR_FORWARD_SLASH]" unfolding r by (simp add: nf_def)
      with assms(2) show ?thesis by simp
    next
      case False
      show ?thesis
      proof (cases trail)
        case True
        with \<open>S = []\<close> \<open>\<not> isAbs\<close> show ?thesis unfolding r by (simp add: nf_def)
      next
        case False
        with \<open>S = []\<close> \<open>\<not> isAbs\<close> have "r = [CHAR_DOT]" unfolding r by (simp add: nf_def)
        with assms(2) show ?thesis by simp
      qed
    qed
    moreover have "\<not> isAbs"
    proof
      assume isAbs
      with \<open>S = []\<close> have "r = [CHAR_FORWARD_SLASH]" unfolding r by (simp add: nf_def)
      with assms(2) show False by simp
    qed
    ultimately show ?thesis using True by (simp add: nf_def)
  next
    case False
    then have t: trail using assms(3) nf_last [OF ok] unfolding r by simp
    have "butlast r = nf isAbs False S"
      unfolding r using t False by (simp add: nf_def butlast_append)
    moreover have "last (nf isAbs False S) \<noteq> CHAR_FORWARD_SLASH"
      using nf_last [OF ok, of isAbs False] False by simp
    ultimately show ?thesis by simp
  qed
  from b show "last (butlast r) \<noteq> CHAR_FORWARD_SLASH" by (rule conjunct2)
  from b have "butlast r = nf isAbs False S" by (rule conjunct1)
  with n show "normal_form (butlast r)"
    unfolding normal_form_def by blast
qed

section \<open>The steps after path.normalize\<close>

lemma normalizePath_finish:
  "normalizePath h p options =
     (if p = [] then []
      else if path_normalize h p = ''.'' then p
      else finish_path
             (case forceForwardSlash options of None \<Rightarrow> True | Some b \<Rightarrow> b)
             (case removeTrailingSlash options of None \<Rightarrow> True | Some b \<Rightarrow> b)
             (case toLowerCase options of None \<Rightarrow> resolve_os h (os options) = windows | Some b \<Rightarrow> b)
             (path_normalize h p))"
  by (simp add: normalizePath_def finish_path_def Let_def)

lemma map_join:
  "f c = c \<Longrightarrow> map f (join_with [c] S) = join_with [c] (map (map f) S)"
  by (induction "[c]" S rule: join_with.induct) auto

lemma map_nf:
  assumes "f CHAR_FORWARD_SLASH = CHAR_FORWARD_SLASH" and "f CHAR_DOT = CHAR_DOT"
  shows "map f (nf isAbs trail S) = nf isAbs trail (map (map f) S)"
  using assms by (simp add: nf_def map_join)

lemma lower_fixes [simp]:
  "lower_char CHAR_FORWARD_SLASH = CHAR_FORWARD_SLASH" "lower_char CHAR_DOT = CHAR_DOT"
  using lower_char_slash [of CHAR_FORWARD_SLASH] lower_char_dot [of CHAR_DOT] by simp_all

lemma plain_seg_lower:
  assumes "plain_seg s"
  shows "plain_seg (map lower_char s)"
proof -
  from assms have s: "s \<noteq> []" "s \<noteq> [CHAR_DOT]" "s \<noteq> dotdot" "CHAR_FORWARD_SLASH \<notin> set s"
    by (simp_all add: plain_seg_def)
  have "map lower_char s \<noteq> [CHAR_DOT]"
  proof
    assume "map lower_char s = [CHAR_DOT]"
    then obtain c where "s = [c]" "lower_char c = CHAR_DOT" by auto
    with s(2) show False by (simp add: lower_char_dot)
  qed
  moreover have "map lower_char s \<noteq> dotdot"
  proof
    assume "map lower_char s = dotdot"
    then obtain c d where "s = [c, d]" "lower_char c = CHAR_DOT" "lower_char d = CHAR_DOT"
      by (auto simp: dotdot_def)
    with s(3) show False by (simp add: lower_char_dot dotdot_def)
  qed
  moreover have "CHAR_FORWARD_SLASH \<notin> set (map lower_char s)"
  proof
    assume "CHAR_FORWARD_SLASH \<in> set (map lower_char s)"
    then obtain c where c: "c \<in> set s" "lower_char c = CHAR_FORWARD_SLASH" by auto
    then have "c = CHAR_FORWARD_SLASH" by (simp add: lower_char_slash)
    with c(1) s(4) show False by simp
  qed
  ultimately show ?thesis using s(1) by (simp add: plain_seg_def)
qed

lemma norm_stack_lower:
  assumes "norm_stack aar S"
  shows "norm_stack aar (map (map lower_char) S)"
proof -
  from assms obtain m R where S: "S = replicate m dotdot @ R"
    and R: "\<forall>s \<in> set R. plain_seg s" and m: "\<not> aar \<longrightarrow> m = 0"
    unfolding norm_stack_def by blast
  have "map (map lower_char) S = replicate m dotdot @ map (map lower_char) R"
    using S by (simp add: dotdot_def)
  moreover have "\<forall>s \<in> set (map (map lower_char) R). plain_seg s"
    using R by (auto simp: plain_seg_lower)
  ultimately show ?thesis
    unfolding norm_stack_def using m by blast
qed

lemma normal_form_lower:
  assumes "normal_form r"
  shows "normal_form (map lower_char r)"
proof -
  from assms obtain isAbs trail S where r: "r = nf isAbs trail S"
    and n: "norm_stack (\<not> isAbs) S"
    unfolding normal_form_def by blast
  have "map lower_char r = nf isAbs trail (map (map lower_char) S)"
    unfolding r by (rule map_nf) simp_all
  moreover have "norm_stack (\<not> isAbs) (map (map lower_char) S)"
    using n by (rule norm_stack_lower)
  ultimately show ?thesis
    unfolding normal_form_def by blast
qed

lemma join_chars: "set (join_with [c] S) \<subseteq> \<Union> (set ` set S) \<union> {c}"
  by (induction "[c]" S rule: join_with.induct) auto

lemma nf_chars:
  "set (nf isAbs trail S) \<subseteq> \<Union> (set ` set S) \<union> {CHAR_FORWARD_SLASH, CHAR_DOT}"
  using join_chars [of CHAR_FORWARD_SLASH S] by (auto simp: nf_def)

lemma posix_normalize_chars:
  "set (posix_normalize p) \<subseteq> set p \<union> {CHAR_FORWARD_SLASH, CHAR_DOT}"
proof (cases "p = []")
  case True
  then show ?thesis by (simp add: posix_normalize_alt)
next
  case False
  define S where "S = foldl (seg_step (hd p \<noteq> CHAR_FORWARD_SLASH)) [] (splits CHAR_FORWARD_SLASH p)"
  have e: "posix_normalize p = nf (hd p = CHAR_FORWARD_SLASH) (last p = CHAR_FORWARD_SLASH) S"
    unfolding S_def using False by (rule posix_normalize_nf(1))
  have "set S \<subseteq> set [] \<union> set (splits CHAR_FORWARD_SLASH p) \<union> {dotdot}"
    unfolding S_def by (rule foldl_step_set)
  then have c: "s = dotdot \<or> s \<in> set (splits CHAR_FORWARD_SLASH p)" if "s \<in> set S" for s
    using that by auto
  have "set s \<subseteq> set p \<union> {CHAR_DOT}" if "s \<in> set S" for s
  proof -
    from c [OF that] show ?thesis
    proof
      assume "s = dotdot"
      then show ?thesis by (simp add: dotdot_def)
    next
      assume "s \<in> set (splits CHAR_FORWARD_SLASH p)"
      then have "set s \<subseteq> set p" using splits_chars by blast
      then show ?thesis by blast
    qed
  qed
  then have "\<Union> (set ` set S) \<subseteq> set p \<union> {CHAR_DOT}" by blast
  then show ?thesis
    unfolding e using nf_chars [of "hd p = CHAR_FORWARD_SLASH" "last p = CHAR_FORWARD_SLASH" S]
    by blast
qed

lemma backslash_other [simp]:
  "CHAR_BACKWARD_SLASH \<noteq> CHAR_FORWARD_SLASH" "CHAR_BACKWARD_SLASH \<noteq> CHAR_DOT"
  "CHAR_FORWARD_SLASH \<noteq> CHAR_BACKWARD_SLASH"
  by (simp_all add: CHAR_BACKWARD_SLASH_def CHAR_FORWARD_SLASH_def CHAR_DOT_def)

lemma map_backslash_id:
  "CHAR_BACKWARD_SLASH \<notin> set n \<Longrightarrow>
   map (\<lambda>c. if c = CHAR_BACKWARD_SLASH then CHAR_FORWARD_SLASH else c) n = n"
  by (induction n) auto

lemma finish_path_normal:
  assumes norm: "normal_form n" and bs: "CHAR_BACKWARD_SLASH \<notin> set n"
  shows "normal_form (finish_path ffs rts lc n)"
    and "CHAR_BACKWARD_SLASH \<notin> set (finish_path ffs rts lc n)"
    and "finish_path ffs rts lc (finish_path ffs rts lc n) = finish_path ffs rts lc n"
proof -
  define n2 where "n2 = (if rts \<and> length n > 1 \<and> last n = CHAR_FORWARD_SLASH then butlast n else n)"
  define n3 where "n3 = (if lc then map lower_char n2 else n2)"
  have ne: "n \<noteq> []" using norm by (rule normal_form_nonempty)
  then have lb: "last n \<noteq> CHAR_BACKWARD_SLASH" using bs last_in_set by metis
  have n1: "map (\<lambda>c. if c = CHAR_BACKWARD_SLASH then CHAR_FORWARD_SLASH else c) n = n"
    using bs by (rule map_backslash_id)
  have f2: "(if rts \<and> length n > 1
             then (if n \<noteq> [] \<and> (last n = CHAR_FORWARD_SLASH \<or> last n = CHAR_BACKWARD_SLASH)
                   then butlast n else n)
             else n) = n2"
  proof (cases "rts \<and> length n > 1 \<and> last n = CHAR_FORWARD_SLASH")
    case True
    then show ?thesis using ne by (simp add: n2_def)
  next
    case False
    then show ?thesis using lb by (cases "rts \<and> length n > 1") (simp_all add: n2_def)
  qed
  have f: "finish_path ffs rts lc n = n3"
    unfolding finish_path_def Let_def n3_def js_toLowerCase_def
    by (cases ffs) (simp_all only: n1 f2 if_True if_False)
  have nf2: "normal_form n2"
    unfolding n2_def using norm normal_form_strip(1) by simp
  have bs2: "CHAR_BACKWARD_SLASH \<notin> set n2"
    unfolding n2_def using bs by (auto dest: in_set_butlastD)
  have q2: "rts \<Longrightarrow> \<not> (length n2 > 1 \<and> last n2 = CHAR_FORWARD_SLASH)"
    unfolding n2_def using norm normal_form_strip(2) by auto
  have nf3: "normal_form n3"
    unfolding n3_def using nf2 normal_form_lower by simp
  have bs3: "CHAR_BACKWARD_SLASH \<notin> set n3"
  proof
    assume a: "CHAR_BACKWARD_SLASH \<in> set n3"
    show False
    proof (cases lc)
      case True
      with a have "CHAR_BACKWARD_SLASH \<in> lower_char ` set n2" by (simp add: n3_def)
      then obtain c where c: "c \<in> set n2" "CHAR_BACKWARD_SLASH = lower_char c" by (rule imageE)
      from c(2) have "lower_char c = CHAR_BACKWARD_SLASH" by (rule sym)
      then have "c = CHAR_BACKWARD_SLASH" by (simp only: lower_char_backslash)
      with c(1) bs2 show False by simp
    next
      case False
      with a bs2 show False by (simp add: n3_def)
    qed
  qed
  have ne2: "n2 \<noteq> []" using nf2 by (rule normal_form_nonempty)
  have l3: "(last n3 = CHAR_FORWARD_SLASH) = (last n2 = CHAR_FORWARD_SLASH)"
    unfolding n3_def using ne2 by (simp add: last_map lower_char_slash)
  have len3: "length n3 = length n2" by (simp add: n3_def)
  have q3: "rts \<Longrightarrow> \<not> (length n3 > 1 \<and> last n3 = CHAR_FORWARD_SLASH)"
    using q2 l3 len3 by simp
  have ne3: "n3 \<noteq> []" using nf3 by (rule normal_form_nonempty)
  then have lb3: "last n3 \<noteq> CHAR_BACKWARD_SLASH" using bs3 last_in_set by metis
  have idem: "lc \<Longrightarrow> map lower_char n3 = n3"
    by (simp add: n3_def lower_char_idem)
  have m1: "map (\<lambda>c. if c = CHAR_BACKWARD_SLASH then CHAR_FORWARD_SLASH else c) n3 = n3"
    using bs3 by (rule map_backslash_id)
  have m2: "(if rts \<and> length n3 > 1
             then (if n3 \<noteq> [] \<and> (last n3 = CHAR_FORWARD_SLASH \<or> last n3 = CHAR_BACKWARD_SLASH)
                   then butlast n3 else n3)
             else n3) = n3"
  proof (cases "rts \<and> length n3 > 1")
    case True
    then have "last n3 \<noteq> CHAR_FORWARD_SLASH" using q3 by simp
    then show ?thesis using lb3 by simp
  next
    case False
    show ?thesis by (simp only: False if_False)
  qed
  have m3: "(if lc then map lower_char n3 else n3) = n3"
    using idem by (cases lc) simp_all
  have "finish_path ffs rts lc n3 = n3"
    unfolding finish_path_def Let_def js_toLowerCase_def
    by (cases ffs) (simp_all only: m1 m2 m3 if_True if_False)
  then show "finish_path ffs rts lc (finish_path ffs rts lc n) = finish_path ffs rts lc n"
    using f by simp
  show "normal_form (finish_path ffs rts lc n)" using f nf3 by simp
  show "CHAR_BACKWARD_SLASH \<notin> set (finish_path ffs rts lc n)" using f bs3 by simp
qed

section \<open>The characters of the result\<close>

lemma illegal_class_lower: "illegal_class os' (lower_char c) \<Longrightarrow> illegal_class os' c"
  by (simp add: illegal_class_def lower_char_windows_illegal lower_char_posix_illegal
      split: if_splits)

lemma illegal_class_slash_dot:
  "\<not> illegal_class os' CHAR_FORWARD_SLASH" "\<not> illegal_class os' CHAR_DOT"
  by (simp_all add: illegal_class_def legal_slash_dot)

lemma finish_path_legal:
  assumes "\<forall>c \<in> set n. \<not> illegal_class os' c"
  shows "\<forall>c \<in> set (finish_path ffs rts lc n). \<not> illegal_class os' c"
proof -
  define n1 where
    "n1 = (if ffs then map (\<lambda>c. if c = CHAR_BACKWARD_SLASH then CHAR_FORWARD_SLASH else c) n else n)"
  define n2 where
    "n2 = (if rts \<and> length n1 > 1
           then (if n1 \<noteq> [] \<and> (last n1 = CHAR_FORWARD_SLASH \<or> last n1 = CHAR_BACKWARD_SLASH)
                 then butlast n1 else n1)
           else n1)"
  have f: "finish_path ffs rts lc n = (if lc then map lower_char n2 else n2)"
    by (simp only: finish_path_def Let_def n1_def n2_def js_toLowerCase_def)
  have l1: "\<not> illegal_class os' c" if "c \<in> set n1" for c
  proof (cases ffs)
    case True
    with that obtain d where d: "d \<in> set n"
      "c = (if d = CHAR_BACKWARD_SLASH then CHAR_FORWARD_SLASH else d)"
      by (auto simp: n1_def)
    show ?thesis
    proof (cases "d = CHAR_BACKWARD_SLASH")
      case True
      with d(2) show ?thesis by (simp add: illegal_class_slash_dot)
    next
      case False
      with d assms show ?thesis by simp
    qed
  next
    case False
    with that assms show ?thesis by (simp add: n1_def)
  qed
  have "set n2 \<subseteq> set n1"
    by (auto simp: n2_def dest: in_set_butlastD)
  then have l2: "\<not> illegal_class os' c" if "c \<in> set n2" for c
    using that l1 by blast
  have "\<not> illegal_class os' c" if "c \<in> set (if lc then map lower_char n2 else n2)" for c
  proof (cases lc)
    case True
    with that obtain d where d: "d \<in> set n2" "c = lower_char d" by auto
    from d(1) have "\<not> illegal_class os' d" by (rule l2)
    then show ?thesis unfolding d(2) using illegal_class_lower by blast
  next
    case False
    with that l2 show ?thesis by simp
  qed
  then show ?thesis unfolding f by blast
qed

lemma normalizePath_posix_legal:
  assumes "\<forall>c \<in> set q. \<not> illegal_class os' c"
  shows "\<forall>c \<in> set (normalizePath posix_host q options). \<not> illegal_class os' c"
proof -
  have "\<forall>c \<in> set (posix_normalize q). \<not> illegal_class os' c"
    using assms posix_normalize_chars [of q] illegal_class_slash_dot [of os'] by blast
  then have "\<forall>c \<in> set (finish_path ffs rts lc (posix_normalize q)). \<not> illegal_class os' c"
    for ffs rts lc
    by (rule finish_path_legal)
  then show ?thesis
    using assms by (simp add: normalizePath_finish posix_host_def)
qed

lemma sanitizePath_class:
  "illegal_class (case o' of None \<Rightarrow> getCurrentOS posix_host | Some x \<Rightarrow> x)
     = illegal_class (resolve_os posix_host o')"
  by (cases o') (auto simp: resolve_os_def getCurrentOS_def posix_host_def illegal_class_def)

text \<open>
  On a POSIX host the result of \<open>sanitizePath\<close> has no character of the class of its
  target, for every input and every target, given, \<open>auto\<close> or left out: none of
  \<open>< > : " | ? *\<close> and of the control characters for \<open>windows\<close>, no NUL otherwise.
\<close>

lemma sanitizePath_legal_on_posix_host:
  "\<forall>c \<in> set (sanitizePath posix_host p o').
     \<not> (if o' = Some windows then WINDOWS_ILLEGAL_CHARS c else POSIX_ILLEGAL_CHARS c)"
proof -
  define os' where "os' = (case o' of None \<Rightarrow> getCurrentOS posix_host | Some x \<Rightarrow> x)"
  define q where "q = replace_global_empty p (illegal_class os')"
  have q: "\<forall>c \<in> set q. \<not> illegal_class os' c"
    by (simp add: q_def replace_global_empty_def)
  have n: "\<forall>c \<in> set (normalizePath posix_host q (os_only os')). \<not> illegal_class os' c"
    using q by (rule normalizePath_posix_legal [of q os' "os_only os'"])
  have s: "sanitizePath posix_host p o' =
             (if p = [] then [] else normalizePath posix_host q (os_only os'))"
    unfolding sanitizePath_def Let_def q_def os'_def illegal_class_def ..
  have "\<forall>c \<in> set (sanitizePath posix_host p o'). \<not> illegal_class os' c"
  proof (cases "p = []")
    case True
    have "sanitizePath posix_host p o' = []" unfolding s by (simp add: True)
    then show ?thesis by simp
  next
    case False
    have "sanitizePath posix_host p o' = normalizePath posix_host q (os_only os')"
      unfolding s by (simp add: False)
    with n show ?thesis by simp
  qed
  moreover have "illegal_class os' c =
      (if o' = Some windows then WINDOWS_ILLEGAL_CHARS c else POSIX_ILLEGAL_CHARS c)" for c
    unfolding os'_def
    by (cases o') (auto simp: getCurrentOS_def posix_host_def illegal_class_def)
  ultimately show ?thesis by simp
qed

section \<open>The claims\<close>

text \<open>
  C7. On the empty string \<open>validatePath\<close> returns, for every host and every options
  object, the invalid result whose error list is the single error \<open>EMPTY_PATH\<close>: no
  other check contributes.
\<close>

theorem validatePath_empty:
  "validatePath h [] options =
     \<lparr>isValid = False,
      errors = Some [\<lparr>code = EMPTY_PATH, message = ''Path cannot be empty'', position = None\<rparr>],
      normalizedPath = None\<rparr>"
  by (simp add: validatePath_def Let_def)

text \<open>
  C8, as stated, fails at \<open>maxLength = 0\<close>: the one-character path \<open>a\<close> is longer than 0
  and still valid, because a \<open>maxLength\<close> of 0 is falsy and the default of the target is
  taken.
\<close>

theorem maxLength_zero_counterexample:
  "int (length ''a'') > 0 \<and>
   validatePath posix_host ''a'' (no_validation_options\<lparr>maxLength := Some (Finite 0)\<rparr>) =
     \<lparr>isValid = True, errors = None, normalizedPath = Some ''a''\<rparr>"
  by code_simp

text \<open>
  C8, amended. On a non-empty path with \<open>maxLength\<close> provided as \<open>m\<close>: when \<open>m\<close> is a
  finite number other than 0, the result has a \<open>TOO_LONG\<close> error exactly when the path is
  longer than \<open>m\<close>; when \<open>m\<close> is 0 or \<open>NaN\<close>, the two falsy numbers, exactly when it is
  longer than the default of the resolved target; when \<open>m\<close> is \<open>Infinity\<close>, never; when
  \<open>m\<close> is \<open>-Infinity\<close>, always.
\<close>

theorem validatePath_maxLength:
  assumes "pathStr \<noteq> []" and "maxLength options = Some m"
  shows "(TOO_LONG \<in> set (error_codes (validatePath h pathStr options))) =
         (case m of
            Finite k \<Rightarrow>
              if k = 0 then int (length pathStr) > getMaxPathLength (resolve_os h (os options))
              else int (length pathStr) > k
          | NaN \<Rightarrow> int (length pathStr) > getMaxPathLength (resolve_os h (os options))
          | PosInfinity \<Rightarrow> False
          | NegInfinity \<Rightarrow> True)"
  using assms
  by (cases m) (simp_all add: error_codes_validatePath effective_maxLength_def)

theorem validatePath_maxLength_witness:
  "''abc'' \<noteq> []
   \<and> TOO_LONG \<in> set (error_codes (validatePath posix_host ''abc''
                                      (no_validation_options\<lparr>maxLength := Some (Finite 2)\<rparr>)))
   \<and> int (length ''abc'') > 2
   \<and> TOO_LONG \<notin> set (error_codes (validatePath posix_host ''abc''
                                      (no_validation_options\<lparr>maxLength := Some NaN\<rparr>)))
   \<and> TOO_LONG \<in> set (error_codes (validatePath posix_host (replicate 4097 CHR ''a'')
                                      (no_validation_options\<lparr>maxLength := Some NaN\<rparr>)))"
proof -
  have d: "getMaxPathLength (resolve_os posix_host None) = 4096"
    by code_simp
  have o: "os (no_validation_options\<lparr>maxLength := Some x\<rparr>) = None" for x
    by (simp add: no_validation_options_def)
  show ?thesis
    using validatePath_maxLength
            [of "''abc''" "no_validation_options\<lparr>maxLength := Some (Finite 2)\<rparr>" "Finite 2"
                posix_host]
          validatePath_maxLength
            [of "''abc''" "no_validation_options\<lparr>maxLength := Some NaN\<rparr>" NaN posix_host]
          validatePath_maxLength
            [of "replicate 4097 CHR ''a''" "no_validation_options\<lparr>maxLength := Some NaN\<rparr>" NaN
                posix_host]
    by (simp add: d o)
qed

text \<open>
  C3. On \<open>path/to/file?.txt\<close> with the target \<open>windows\<close> the result is invalid with the
  single error \<open>ILLEGAL_CHAR\<close>, whose position is absent, although the \<open>?\<close> stands at
  index 12: the match array of a global expression has no \<open>index\<close>.
\<close>

theorem illegal_char_position_absent:
  "validatePath posix_host ''path/to/file?.txt'' (no_validation_options\<lparr>os := Some windows\<rparr>) =
     \<lparr>isValid = False,
      errors = Some [\<lparr>code = ILLEGAL_CHAR, message = ''Path contains illegal character: ?'',
                      position = None\<rparr>],
      normalizedPath = None\<rparr>
   \<and> ''path/to/file?.txt'' ! 12 = CHR ''?''"
  by code_simp

text \<open>
  C4, as stated, fails: on \<open>../path/to/file?.txt\<close> with the target \<open>windows\<close> the error
  list is \<open>ILLEGAL_CHAR\<close> followed by \<open>TRAVERSAL\<close>, not the other way round.
\<close>

theorem traversal_before_illegal_counterexample:
  "error_codes (validatePath posix_host ''../path/to/file?.txt''
      (no_validation_options\<lparr>os := Some windows\<rparr>)) = [ILLEGAL_CHAR, TRAVERSAL]
   \<and> [ILLEGAL_CHAR, TRAVERSAL] \<noteq> [TRAVERSAL, ILLEGAL_CHAR]"
  by code_simp

text \<open>
  C4, amended. On every host, \<open>validatePath('../path/to/file?.txt', {os:'windows'})\<close> is
  invalid and its error list is exactly an \<open>ILLEGAL_CHAR\<close> error followed by a
  \<open>TRAVERSAL\<close> error, the order in which the checks run.
\<close>

theorem illegal_then_traversal:
  "validatePath h ''../path/to/file?.txt'' (no_validation_options\<lparr>os := Some windows\<rparr>) =
     \<lparr>isValid = False,
      errors = Some [\<lparr>code = ILLEGAL_CHAR, message = ''Path contains illegal character: ?'',
                      position = None\<rparr>,
                     \<lparr>code = TRAVERSAL, message = ''Path traversal (..) is not allowed'',
                      position = None\<rparr>],
      normalizedPath = None\<rparr>"
  by (simp add: validatePath_def Let_def no_validation_options_def resolve_os_def
      getMaxPathLength_def WINDOWS_MAX_PATH_def match_global_def WINDOWS_ILLEGAL_CHARS_def)

text \<open>
  C5, as stated, fails: \<open>isPathTraversal('a..b')\<close> is true, since the normal form of
  \<open>a..b\<close> is \<open>a..b\<close> itself and contains two dots in a row.
\<close>

theorem isPathTraversal_a_dot_dot_b_counterexample:
  "isPathTraversal posix_host ''a..b'' = True"
  by code_simp

text \<open>
  C5, amended. On \<open>a..b\<close> the two checks agree: \<open>validatePath\<close> with \<open>allowTraversal\<close>
  false emits \<open>TRAVERSAL\<close> and \<open>isPathTraversal\<close> returns true. They disagree on
  \<open>a/../b\<close>, which the validator flags and \<open>isPathTraversal\<close> does not.
\<close>

theorem traversal_checks_compared:
  "error_codes (validatePath posix_host ''a..b''
      (no_validation_options\<lparr>allowTraversal := Some False\<rparr>)) = [TRAVERSAL]
   \<and> isPathTraversal posix_host ''a..b'' = True
   \<and> error_codes (validatePath posix_host ''a/../b''
      (no_validation_options\<lparr>allowTraversal := Some False\<rparr>)) = [TRAVERSAL]
   \<and> isPathTraversal posix_host ''a/../b'' = False"
  by code_simp

text \<open>
  C6. \<open>isPathTraversal\<close> is false on the empty string; on a non-empty string it is true
  exactly when the normal form under the default options contains \<open>..\<close> as a substring.
  It is true on \<open>path/./to/../../../file.txt\<close> and false on \<open>./path/to/file.txt\<close>.
\<close>

theorem isPathTraversal_spec:
  "isPathTraversal h [] = False
   \<and> (p \<noteq> [] \<longrightarrow>
        isPathTraversal h p =
          (\<exists>xs ys. normalizePath h p no_normalization_options = xs @ ''..'' @ ys))
   \<and> isPathTraversal posix_host ''path/./to/../../../file.txt'' = True
   \<and> isPathTraversal posix_host ''./path/to/file.txt'' = False"
proof -
  have "isPathTraversal posix_host ''path/./to/../../../file.txt'' = True"
    by code_simp
  moreover have "isPathTraversal posix_host ''./path/to/file.txt'' = False"
    by code_simp
  ultimately show ?thesis
    by (simp add: isPathTraversal_def str_includes_iff)
qed

theorem isPathTraversal_spec_witness:
  "''x/../../y'' \<noteq> []
   \<and> normalizePath posix_host ''x/../../y'' no_normalization_options = ''../y''
   \<and> isPathTraversal posix_host ''x/../../y'' = True
   \<and> (\<exists>xs ys. normalizePath posix_host ''x/../../y'' no_normalization_options = xs @ ''..'' @ ys)"
proof -
  have n: "normalizePath posix_host ''x/../../y'' no_normalization_options = ''../y''"
    by code_simp
  have t: "isPathTraversal posix_host ''x/../../y'' = True"
    by code_simp
  show ?thesis
    using isPathTraversal_spec [of posix_host "''x/../../y''"] n t by simp
qed

text \<open>
  C9, as stated, fails for a single segment: \<open>joinPaths('a//b')\<close> is \<open>a/b\<close>, not the
  segment unchanged.
\<close>

theorem joinPaths_single_counterexample:
  "joinPaths posix_host [''a//b''] = ''a/b'' \<and> ''a/b'' \<noteq> ''a//b''"
  by code_simp

text \<open>
  C9, amended. On every host \<open>joinPaths\<close> returns what \<open>path.join\<close> returns for the same
  segments. On a POSIX host: with no argument that is \<open>.\<close>; otherwise the empty segments
  are skipped, the rest are written with \<open>/\<close> between neighbours and that string is
  passed through \<open>path.normalize\<close> (\<open>.\<close> when every segment is empty). So a single
  segment \<open>s\<close> comes back as \<open>path.normalize(s)\<close>, which is \<open>s\<close> for \<open>path\<close> and
  is not for \<open>a//b\<close>; and \<open>joinPaths('path','','file.txt')\<close> is \<open>path/file.txt\<close>, which
  \<open>normalizePath\<close> leaves as \<open>path/file.txt\<close>.
\<close>

theorem joinPaths_posix:
  "joinPaths h segments = path_join h segments
   \<and> joinPaths posix_host [] = ''.''
   \<and> joinPaths posix_host segments =
       (if filter (\<lambda>s. s \<noteq> []) segments = [] then ''.''
        else posix_normalize (join_with ''/'' (filter (\<lambda>s. s \<noteq> []) segments)))
   \<and> joinPaths posix_host [s] = (if s = [] then ''.'' else posix_normalize s)
   \<and> joinPaths posix_host [''path''] = ''path''
   \<and> joinPaths posix_host [''path'', '''', ''file.txt''] = ''path/file.txt''
   \<and> normalizePath posix_host (joinPaths posix_host [''path'', '''', ''file.txt''])
         no_normalization_options = ''path/file.txt''"
proof -
  have "joinPaths posix_host [''path''] = ''path''"
    by code_simp
  moreover have "joinPaths posix_host [''path'', '''', ''file.txt''] = ''path/file.txt''"
    by code_simp
  moreover have "normalizePath posix_host (joinPaths posix_host [''path'', '''', ''file.txt''])
                   no_normalization_options = ''path/file.txt''"
    by code_simp
  moreover have "joinPaths posix_host xs = posix_join xs" for xs
    by (simp add: joinPaths_def posix_host_def)
  moreover have "joinPaths h segments = path_join h segments"
    by (simp add: joinPaths_def)
  ultimately show ?thesis
    by (simp add: posix_join_eq)
qed

text \<open>
  C2. On a POSIX host, for every target \<open>os\<close> option and otherwise default options: a
  non-empty path that does not contain \<open>..\<close>, has no character of the resolved
  target's illegal class and is no longer than that target's limit is valid, and its
  \<open>normalizedPath\<close> is the non-empty result of \<open>normalizePath\<close> with the options
  \<open>{ os }\<close> of the resolved target.
\<close>

theorem validatePath_accepts:
  assumes "p \<noteq> []"
    and "\<not> (\<exists>xs ys. p = xs @ ''..'' @ ys)"
    and "\<forall>c \<in> set p. \<not> illegal_class (resolve_os posix_host o') c"
    and "int (length p) \<le> getMaxPathLength (resolve_os posix_host o')"
  shows "validatePath posix_host p (no_validation_options\<lparr>os := o'\<rparr>) =
           \<lparr>isValid = True, errors = None,
            normalizedPath =
              Some (normalizePath posix_host p (os_only (resolve_os posix_host o')))\<rparr>
         \<and> normalizePath posix_host p (os_only (resolve_os posix_host o')) \<noteq> []"
proof -
  let ?opts = "no_validation_options\<lparr>os := o'\<rparr>"
  have f: "filter (illegal_class (resolve_os posix_host o')) p = []"
    using assms(3) by (simp add: filter_empty_conv)
  have "error_codes (validatePath posix_host p ?opts) = []"
    using assms(1,2,4) f
    by (simp add: error_codes_validatePath effective_maxLength_def str_includes_iff
        no_validation_options_def)
  with assms(1) have "validatePath posix_host p ?opts =
           \<lparr>isValid = True, errors = None,
            normalizedPath =
              Some (normalizePath posix_host p (os_only (resolve_os posix_host (os ?opts))))\<rparr>"
    by (rule validatePath_no_errors)
  moreover have "normalizePath posix_host p (os_only (resolve_os posix_host o')) \<noteq> []"
    using assms(1)
    by (rule normalizePath_nonempty) (simp add: posix_host_def posix_normalize_nonempty)
  ultimately show ?thesis
    by (simp add: no_validation_options_def)
qed

theorem validatePath_accepts_witness:
  "''Docs/a.txt'' \<noteq> []
   \<and> \<not> (\<exists>xs ys. ''Docs/a.txt'' = xs @ ''..'' @ ys)
   \<and> (\<forall>c \<in> set ''Docs/a.txt''. \<not> illegal_class (resolve_os posix_host None) c) = True
   \<and> int (length ''Docs/a.txt'') \<le> getMaxPathLength (resolve_os posix_host None)
   \<and> validatePath posix_host ''Docs/a.txt'' no_validation_options =
       \<lparr>isValid = True, errors = None, normalizedPath = Some ''Docs/a.txt''\<rparr>"
proof -
  have a: "\<not> (\<exists>xs ys. ''Docs/a.txt'' = xs @ ''..'' @ ys)"
    unfolding str_includes_iff [symmetric] by code_simp
  have b: "\<forall>c \<in> set ''Docs/a.txt''. \<not> illegal_class (resolve_os posix_host None) c"
    by code_simp
  have c: "int (length ''Docs/a.txt'') \<le> getMaxPathLength (resolve_os posix_host None)"
    by code_simp
  have d: "normalizePath posix_host ''Docs/a.txt'' (os_only (resolve_os posix_host None)) = ''Docs/a.txt''"
    by code_simp
  have e: "no_validation_options\<lparr>os := None\<rparr> = no_validation_options"
    by (simp add: no_validation_options_def)
  show ?thesis
    using validatePath_accepts [of "''Docs/a.txt''" None] a b c d e by simp
qed

text \<open>
  C1, as stated, fails on a POSIX host, where a backslash is not a separator for
  \<open>path.normalize\<close> but is turned into a slash afterwards: with the default options
  the path \<open>a\<close>, backslash, \<open>..\<close>, backslash, \<open>b\<close> becomes \<open>a/../b\<close>, and normalizing that gives
  \<open>b\<close>.
\<close>

theorem normalizePath_idempotent_counterexample:
  "normalizePath posix_host [CHR ''a'', CHR 0x5C, CHR ''.'', CHR ''.'', CHR 0x5C, CHR ''b'']
     no_normalization_options = ''a/../b''
   \<and> normalizePath posix_host ''a/../b'' no_normalization_options = ''b''
   \<and> ''b'' \<noteq> ''a/../b''"
  by code_simp

text \<open>
  C1, amended. On a POSIX host \<open>normalizePath\<close> is idempotent on every input without a
  backslash, for every options object: normalizing the result again under the same
  options returns it unchanged.
\<close>

theorem normalizePath_idempotent_posix:
  assumes "CHAR_BACKWARD_SLASH \<notin> set p"
  shows "normalizePath posix_host (normalizePath posix_host p options) options =
         normalizePath posix_host p options"
proof -
  define ffs where "ffs = (case forceForwardSlash options of None \<Rightarrow> True | Some b \<Rightarrow> b)"
  define rts where "rts = (case removeTrailingSlash options of None \<Rightarrow> True | Some b \<Rightarrow> b)"
  define lc where "lc = (case toLowerCase options of
                           None \<Rightarrow> resolve_os posix_host (os options) = windows | Some b \<Rightarrow> b)"
  have u: "normalizePath posix_host q options =
             (if q = [] then [] else if posix_normalize q = ''.'' then q
              else finish_path ffs rts lc (posix_normalize q))" for q
    unfolding normalizePath_finish ffs_def rts_def lc_def by (simp add: posix_host_def)
  show ?thesis
  proof (cases "p = [] \<or> posix_normalize p = ''.''")
    case True
    then show ?thesis by (auto simp: u)
  next
    case False
    define r where "r = finish_path ffs rts lc (posix_normalize p)"
    have r: "normalizePath posix_host p options = r"
      using False by (simp add: u r_def)
    have n: "normal_form (posix_normalize p)" by (rule normal_form_posix_normalize)
    have b: "CHAR_BACKWARD_SLASH \<notin> set (posix_normalize p)"
      using assms posix_normalize_chars [of p] by auto
    have nr: "normal_form r" unfolding r_def using n b by (rule finish_path_normal(1))
    have fr: "finish_path ffs rts lc r = r" unfolding r_def using n b by (rule finish_path_normal(3))
    have "posix_normalize r = r" using nr by (rule posix_normalize_fixed)
    moreover have "r \<noteq> []" using nr by (rule normal_form_nonempty)
    ultimately have "normalizePath posix_host r options = r"
      using fr by (simp add: u)
    then show ?thesis using r by simp
  qed
qed

theorem normalizePath_idempotent_posix_witness:
  "CHAR_BACKWARD_SLASH \<notin> set ''a//B/../c/''
   \<and> normalizePath posix_host ''a//B/../c/'' (no_normalization_options\<lparr>toLowerCase := Some True\<rparr>) = ''a/c''
   \<and> normalizePath posix_host ''a/c'' (no_normalization_options\<lparr>toLowerCase := Some True\<rparr>) = ''a/c''"
proof -
  have b: "CHAR_BACKWARD_SLASH \<notin> set ''a//B/../c/''"
    by code_simp
  have e: "normalizePath posix_host ''a//B/../c/'' (no_normalization_options\<lparr>toLowerCase := Some True\<rparr>) = ''a/c''"
    by code_simp
  show ?thesis
    using normalizePath_idempotent_posix [OF b, of "no_normalization_options\<lparr>toLowerCase := Some True\<rparr>"] b e
    by simp
qed

text \<open>
  C10. On a host that reports \<open>win32\<close>, and whose \<open>path.normalize\<close> returns \<open>a?b\<close> for
  \<open>a?b\<close> (as \<open>path.win32\<close> does: the string has no separator, no dot segment and no
  drive), \<open>sanitizePath('a?b', 'auto')\<close> returns \<open>a?b\<close>. The target \<open>auto\<close> resolves to
  \<open>windows\<close> there, and \<open>?\<close> is in the Windows class, the characters
  \<open>< > : " | ? *\<close> and the control characters 0x00 to 0x1F: \<open>sanitizePath\<close> compares
  \<open>os\<close> with \<open>windows\<close> without resolving \<open>auto\<close> first, so it deletes the characters of
  the POSIX class only.
\<close>

theorem sanitizePath_auto_keeps_illegal:
  assumes "platform h = ''win32''" and "path_normalize h ''a?b'' = ''a?b''"
  shows "sanitizePath h ''a?b'' (Some auto) = ''a?b''
         \<and> resolve_os h (Some auto) = windows
         \<and> CHR ''?'' \<in> set (sanitizePath h ''a?b'' (Some auto))
         \<and> WINDOWS_ILLEGAL_CHARS CHR ''?''"
proof -
  have c: "replace_global_empty ''a?b'' POSIX_ILLEGAL_CHARS = ''a?b''"
    by code_simp
  have l: "js_toLowerCase ''a?b'' = ''a?b''"
    by code_simp
  have w: "WINDOWS_ILLEGAL_CHARS CHR ''?''"
    by code_simp
  have r: "resolve_os h (Some auto) = windows"
    using assms(1) by (simp add: resolve_os_def getCurrentOS_def)
  have "sanitizePath h ''a?b'' (Some auto) = ''a?b''"
    using assms(2) r c l
    by (simp add: sanitizePath_def normalizePath_def os_only_def Let_def
        CHAR_BACKWARD_SLASH_def CHAR_FORWARD_SLASH_def)
  then show ?thesis using r w by simp
qed

theorem sanitizePath_auto_keeps_illegal_witness:
  "platform (posix_host\<lparr>platform := ''win32''\<rparr>) = ''win32''
   \<and> path_normalize (posix_host\<lparr>platform := ''win32''\<rparr>) ''a?b'' = ''a?b''
   \<and> sanitizePath (posix_host\<lparr>platform := ''win32''\<rparr>) ''a?b'' (Some auto) = ''a?b''
   \<and> sanitizePath (posix_host\<lparr>platform := ''win32''\<rparr>) ''a?b'' (Some windows) = ''ab''"
proof -
  have p: "platform (posix_host\<lparr>platform := ''win32''\<rparr>) = ''win32''"
    by simp
  have n: "path_normalize (posix_host\<lparr>platform := ''win32''\<rparr>) ''a?b'' = ''a?b''"
    by code_simp
  have e: "sanitizePath (posix_host\<lparr>platform := ''win32''\<rparr>) ''a?b'' (Some windows) = ''ab''"
    by code_simp
  show ?thesis
    using sanitizePath_auto_keeps_illegal [OF p n] p n e by simp
qed

end
